theory Spec2Isabelle
  imports Complex_Main "HOL-Library.Multiset"
begin

section \<open>Data model of script.js\<close>

text \<open>
  A department (category) is a string. A cell of the grid under construction holds a
  department or \<^verbatim>\<open>null\<close> (\<open>None\<close>). The grid is an array of rows.

  A counts object (\<^verbatim>\<open>countsMap\<close>, \<^verbatim>\<open>countsLeft\<close>) is an association list: the own
  properties of the object in the order \<^verbatim>\<open>Object.keys\<close> enumerates them. The keys of an
  object are pairwise distinct; theorems that depend on it say so. Counts are integers;
  \<open>rows\<close>, \<open>cols\<close> and \<open>attemptLimit\<close> are natural numbers (a limit below 0 behaves like
  0: the first call of \<^verbatim>\<open>dfs\<close> already exceeds it).

  \<^verbatim>\<open>Math.random\<close> is the only source of nondeterminism. The random source is the infinite
  sequence of the numbers the following calls of \<^verbatim>\<open>Math.random()\<close> return; taking a
  draw reads element 0 and leaves the rest. The engine's \<^verbatim>\<open>Array.prototype.sort\<close> under
  the random comparator \<^verbatim>\<open>()=>Math.random()-0.5\<close> is not code of the repository: which
  order it leaves and how many draws it takes depend on the engine. It is a parameter
  \<open>rs\<close> of the search: from the random source and the array it gives the reordered
  array and the remaining random source. Every engine's sort leaves a permutation of the
  array; the theorems that need it assume it (\<open>permuting\<close>).
\<close>

type_synonym dept = string
type_synonym cell = "dept option"
type_synonym grid = "cell list list"
type_synonym counts = "(dept \<times> int) list"
type_synonym rnd = "nat \<Rightarrow> real"
type_synonym engine_sort = "rnd \<Rightarrow> dept list \<Rightarrow> dept list \<times> rnd"

datatype error = TypeError

definition rest :: "rnd \<Rightarrow> rnd" where
  "rest rn = (\<lambda>n. rn (Suc n))"

definition object_keys :: "counts \<Rightarrow> dept list" where
  "object_keys m = map fst m"

text \<open>\<^verbatim>\<open>m[d]\<close>, read as a number. The source reads only own keys; for any other key the
  value is \<^verbatim>\<open>undefined\<close>, whose comparison \<^verbatim>\<open>> 0\<close> is false, as for 0.\<close>

definition count_of :: "counts \<Rightarrow> dept \<Rightarrow> int" where
  "count_of m d = (case map_of m d of Some n \<Rightarrow> n | None \<Rightarrow> 0)"

text \<open>\<^verbatim>\<open>m[d]--\<close> and \<^verbatim>\<open>m[d]++\<close> on an own key: the value changes in place, the key
  order stays.\<close>

definition bump :: "counts \<Rightarrow> dept \<Rightarrow> int \<Rightarrow> counts" where
  "bump m d k = map (\<lambda>(x, n). if x = d then (x, n + k) else (x, n)) m"

section \<open>neighbors\<close>

definition neighbors :: "nat \<Rightarrow> nat \<Rightarrow> nat \<Rightarrow> nat \<Rightarrow> (nat \<times> nat) list" where
  "neighbors r c rows cols =
     (if r > 0 then [(r - 1, c)] else []) @
     (if int r < int rows - 1 then [(r + 1, c)] else []) @
     (if c > 0 then [(r, c - 1)] else []) @
     (if int c < int cols - 1 then [(r, c + 1)] else [])"

section \<open>tryArrange\<close>

text \<open>The Fisher-Yates loop \<^verbatim>\<open>for(i=a.length-1;i>0;i--)\<close>: one draw per iteration,
  \<^verbatim>\<open>j = Math.floor(Math.random()*(i+1))\<close>, then the swap of \<^verbatim>\<open>a[i]\<close> and \<^verbatim>\<open>a[j]\<close>.
  A draw of \<^verbatim>\<open>Math.random()\<close> is at least 0 and below 1, so \<open>j \<le> i\<close> and both reads
  are in range.\<close>

fun shuffle_from :: "nat \<Rightarrow> dept list \<Rightarrow> rnd \<Rightarrow> dept list \<times> rnd" where
  "shuffle_from 0 a rn = (a, rn)"
| "shuffle_from (Suc i) a rn =
     (let j = nat \<lfloor>rn 0 * real (Suc i + 1)\<rfloor>
      in shuffle_from i (a[Suc i := a ! j, j := a ! Suc i]) (rest rn))"

definition shuffle :: "dept list \<Rightarrow> rnd \<Rightarrow> dept list \<times> rnd" where
  "shuffle a rn = shuffle_from (length a - 1) a rn"

text \<open>The cells in the order the two nested loops push them: row-major.\<close>

definition cells :: "nat \<Rightarrow> nat \<Rightarrow> (nat \<times> nat) list" where
  "cells rows cols = concat (map (\<lambda>r. map (\<lambda>c. (r, c)) [0..<cols]) [0..<rows])"

text \<open>The variables the closures \<^verbatim>\<open>canPlace\<close> and \<^verbatim>\<open>dfs\<close> share and mutate, with the
  random source.\<close>

record search =
  grid :: grid
  countsLeft :: counts
  attempts :: nat
  draws :: rnd

definition set_cell :: "grid \<Rightarrow> nat \<Rightarrow> nat \<Rightarrow> cell \<Rightarrow> grid" where
  "set_cell g r c v = g[r := (g ! r)[c := v]]"

definition canPlace :: "nat \<Rightarrow> nat \<Rightarrow> grid \<Rightarrow> nat \<Rightarrow> nat \<Rightarrow> dept \<Rightarrow> bool" where
  "canPlace rows cols g r c d =
     list_all (\<lambda>(nr, nc). g ! nr ! nc \<noteq> Some d) (neighbors r c rows cols)"

text \<open>The candidates of one step: the keys with a positive remaining count, sorted by
  descending remaining count (the sort is stable).\<close>

definition candidates :: "counts \<Rightarrow> dept list" where
  "candidates cl =
     sort_key (\<lambda>d. - count_of cl d) (filter (\<lambda>d. count_of cl d > 0) (object_keys cl))"

text \<open>The randomisation of one step: with more than one candidate a draw is taken, and
  when it is below 0.3 the engine sorts the candidates under the random comparator.\<close>

definition reorder :: "engine_sort \<Rightarrow> dept list \<Rightarrow> rnd \<Rightarrow> dept list \<times> rnd" where
  "reorder rs cand rn =
     (if length cand > 1 then
        (if rn 0 < 3 / 10 then rs (rest rn) cand else (cand, rest rn))
      else (cand, rn))"

text \<open>
  \<open>dfs\<close> is the closure \<^verbatim>\<open>dfs(idx)\<close>; \<open>place\<close> is its loop \<^verbatim>\<open>for(const d of cand)\<close>
  over the candidates not yet tried. Both return what \<^verbatim>\<open>dfs\<close> returns (\<open>Inr True\<close>,
  \<open>Inr False\<close>) together with the shared variables as they are left. Reading
  \<^verbatim>\<open>cells[idx]\<close> beyond the end would throw a TypeError in the destructuring.
\<close>

function dfs :: "engine_sort \<Rightarrow> nat \<Rightarrow> nat \<Rightarrow> nat \<Rightarrow> nat \<Rightarrow> search \<Rightarrow> (error + bool) \<times> search"
  and place :: "engine_sort \<Rightarrow> nat \<Rightarrow> nat \<Rightarrow> nat \<Rightarrow> nat \<Rightarrow> nat \<Rightarrow> nat \<Rightarrow> dept list \<Rightarrow> search
                 \<Rightarrow> (error + bool) \<times> search"
where
  "dfs rs rows cols attemptLimit idx st =
     (let st1 = st\<lparr>attempts := attempts st + 1\<rparr> in
      if attempts st1 > attemptLimit then (Inr False, st1)
      else if idx = length (cells rows cols) then (Inr True, st1)
      else if idx < length (cells rows cols) then
        (let (r, c) = cells rows cols ! idx;
             cand = candidates (countsLeft st1);
             (cand', rn) = reorder rs cand (draws st1)
         in place rs rows cols attemptLimit idx r c cand' (st1\<lparr>draws := rn\<rparr>))
      else (Inl TypeError, st1))"
| "place rs rows cols attemptLimit idx r c [] st = (Inr False, st)"
| "place rs rows cols attemptLimit idx r c (d # ds) st =
     (if \<not> canPlace rows cols (grid st) r c d
      then place rs rows cols attemptLimit idx r c ds st
      else
        (case dfs rs rows cols attemptLimit (idx + 1)
                (st\<lparr>grid := set_cell (grid st) r c (Some d),
                    countsLeft := bump (countsLeft st) d (- 1)\<rparr>) of
           (Inr True, st') \<Rightarrow> (Inr True, st')
         | (Inl e, st') \<Rightarrow> (Inl e, st')
         | (Inr False, st') \<Rightarrow>
             place rs rows cols attemptLimit idx r c ds
               (st'\<lparr>grid := set_cell (grid st') r c None,
                    countsLeft := bump (countsLeft st') d 1\<rparr>)))"
  by pat_completeness auto

termination
  by (relation "inv_image (less_than <*lex*> less_than)
        (\<lambda>x. case x of
           Inl (rs, rows, cols, al, idx, st) \<Rightarrow>
             (2 * (length (cells rows cols) + 1 - idx), 0)
         | Inr (rs, rows, cols, al, idx, r, c, ds, st) \<Rightarrow>
             (2 * (length (cells rows cols) - idx) + 1, length ds))") auto

text \<open>The array \<^verbatim>\<open>pool\<close>: for every key with a positive count, in key order, that many
  copies of the key.\<close>

definition build_pool :: "counts \<Rightarrow> dept list" where
  "build_pool countsMap =
     (let depts = filter (\<lambda>d. count_of countsMap d > 0) (object_keys countsMap)
      in concat (map (\<lambda>d. replicate (nat (count_of countsMap d)) d) depts))"

text \<open>What a call of \<^verbatim>\<open>tryArrange\<close> did: it returned at the length check, before the grid
  and the attempt counter exist and before any draw, or it ran the search from cell 0.
  The shuffled pool is not read again; the shuffle only takes its draws.\<close>

datatype run = Rejected | Searched "error + bool" search

definition tryArrange_run ::
  "engine_sort \<Rightarrow> nat \<Rightarrow> nat \<Rightarrow> counts \<Rightarrow> nat \<Rightarrow> rnd \<Rightarrow> run" where
  "tryArrange_run rs rows cols countsMap attemptLimit rn =
     (let total = rows * cols;
          pool = build_pool countsMap
      in if length pool \<noteq> total then Rejected
         else
           (let (pool', rn') = shuffle pool rn;
                g = replicate rows (replicate cols None);
                st = \<lparr>grid = g, countsLeft = countsMap, attempts = 0, draws = rn'\<rparr>
            in case dfs rs rows cols attemptLimit 0 st of (ok, st') \<Rightarrow> Searched ok st'))"

text \<open>The default of the parameter \<^verbatim>\<open>attemptLimit\<close>.\<close>

definition default_attemptLimit :: nat where
  "default_attemptLimit = 20000"

text \<open>The value \<^verbatim>\<open>tryArrange\<close> returns: the grid, or \<^verbatim>\<open>null\<close> (\<open>None\<close>).\<close>

definition tryArrange ::
  "engine_sort \<Rightarrow> nat \<Rightarrow> nat \<Rightarrow> counts \<Rightarrow> nat \<Rightarrow> rnd \<Rightarrow> error + grid option" where
  "tryArrange rs rows cols countsMap attemptLimit rn =
     (case tryArrange_run rs rows cols countsMap attemptLimit rn of
        Rejected \<Rightarrow> Inr None
      | Searched (Inr True) st \<Rightarrow> Inr (Some (grid st))
      | Searched (Inr False) st \<Rightarrow> Inr None
      | Searched (Inl e) st \<Rightarrow> Inl e)"

text \<open>The number of times the attempt counter was incremented in a run: the counter does
  not exist yet when the call returns at the length check.\<close>

definition attempts_of :: "run \<Rightarrow> nat" where
  "attempts_of ru = (case ru of Rejected \<Rightarrow> 0 | Searched ok st \<Rightarrow> attempts st)"

section \<open>assignRollsToGrid\<close>

text \<open>
  What reading \<^verbatim>\<open>grid[r][c]\<close> can give: a department, \<^verbatim>\<open>null\<close>, or \<^verbatim>\<open>undefined\<close>
  beyond the end of row \<open>r\<close>. \<open>to_string\<close> is the string the value has in the template
  literal and as a property key of \<^verbatim>\<open>counters\<close>.
\<close>

datatype jsval = Undefined | Null | Str string

record seat =
  dept :: jsval
  roll :: string

type_synonym seatgrid = "seat option list list"

definition to_string :: "jsval \<Rightarrow> string" where
  "to_string v = (case v of Undefined \<Rightarrow> ''undefined'' | Null \<Rightarrow> ''null'' | Str s \<Rightarrow> s)"

definition read_cell :: "grid \<Rightarrow> nat \<Rightarrow> nat \<Rightarrow> jsval" where
  "read_cell g r c =
     (if c < length (g ! r) then (case g ! r ! c of None \<Rightarrow> Null | Some d \<Rightarrow> Str d)
      else Undefined)"

definition digit_char :: "nat \<Rightarrow> char" where
  "digit_char k = ''0123456789'' ! k"

text \<open>\<^verbatim>\<open>String(n)\<close> for a natural number: its decimal digits.\<close>

fun digits :: "nat \<Rightarrow> string" where
  "digits n = (if n < 10 then [digit_char n] else digits (n div 10) @ [digit_char (n mod 10)])"

definition padStart :: "nat \<Rightarrow> char \<Rightarrow> string \<Rightarrow> string" where
  "padStart n ch s = replicate (n - length s) ch @ s"

text \<open>
  The object \<^verbatim>\<open>counters\<close> is made by \<^verbatim>\<open>{}\<close>: it starts with no property of its own and
  inherits the properties of \<^verbatim>\<open>Object.prototype\<close>. So \<^verbatim>\<open>counters[d]\<close> is \<^verbatim>\<open>undefined\<close>, a
  number or a string the loop stored, one of the built-in functions of
  \<^verbatim>\<open>Object.prototype\<close>, or, under the key \<^verbatim>\<open>__proto__\<close>, \<^verbatim>\<open>Object.prototype\<close> itself.
\<close>

datatype propval =
    PUndefined
  | PNumber nat
  | PString string
  | PFunction string
  | PObjectPrototype

text \<open>The methods of \<^verbatim>\<open>Object.prototype\<close>, each with the name of the function it holds.
  The accessor \<^verbatim>\<open>__proto__\<close> is the remaining inherited property.\<close>

definition object_prototype :: "(string \<times> string) list" where
  "object_prototype =
     [(''constructor'', ''Object''),
      (''__defineGetter__'', ''__defineGetter__''),
      (''__defineSetter__'', ''__defineSetter__''),
      (''hasOwnProperty'', ''hasOwnProperty''),
      (''__lookupGetter__'', ''__lookupGetter__''),
      (''__lookupSetter__'', ''__lookupSetter__''),
      (''isPrototypeOf'', ''isPrototypeOf''),
      (''propertyIsEnumerable'', ''propertyIsEnumerable''),
      (''toString'', ''toString''),
      (''valueOf'', ''valueOf''),
      (''toLocaleString'', ''toLocaleString'')]"

definition inherited_names :: "string list" where
  "inherited_names = ''__proto__'' # map fst object_prototype"

text \<open>\<^verbatim>\<open>String(v)\<close>. The text of a built-in function is written as V8 prints it; engines
  differ in its white space.\<close>

definition native_text :: "string \<Rightarrow> string" where
  "native_text f = ''function '' @ f @ ''() { [native code] }''"

definition prop_string :: "propval \<Rightarrow> string" where
  "prop_string v =
     (case v of
        PUndefined \<Rightarrow> ''undefined''
      | PNumber n \<Rightarrow> digits n
      | PString s \<Rightarrow> s
      | PFunction f \<Rightarrow> native_text f
      | PObjectPrototype \<Rightarrow> ''[object Object]'')"

text \<open>\<^verbatim>\<open>counters[k]\<close>: the own property if there is one, the inherited one otherwise.\<close>

definition get_prop :: "(string \<rightharpoonup> propval) \<Rightarrow> string \<Rightarrow> propval" where
  "get_prop own k =
     (case own k of
        Some v \<Rightarrow> v
      | None \<Rightarrow>
          if k = ''__proto__'' then PObjectPrototype
          else (case map_of object_prototype k of
                  Some f \<Rightarrow> PFunction f
                | None \<Rightarrow> PUndefined))"

text \<open>\<^verbatim>\<open>(v||0)+1\<close>: a falsy \<open>v\<close> (\<^verbatim>\<open>undefined\<close>, 0, the empty string) gives \<open>0 + 1\<close>, a
  number its successor; any other value is turned into its string, and \<^verbatim>\<open>+\<close> appends
  the string of 1.\<close>

definition incremented :: "propval \<Rightarrow> propval" where
  "incremented v =
     (case v of
        PUndefined \<Rightarrow> PNumber 1
      | PNumber n \<Rightarrow> PNumber (n + 1)
      | PString s \<Rightarrow> if s = [] then PNumber 1 else PString (s @ ''1'')
      | PFunction f \<Rightarrow> PString (native_text f @ ''1'')
      | PObjectPrototype \<Rightarrow> PString (''[object Object]'' @ ''1''))"

text \<open>\<^verbatim>\<open>counters[k] = v\<close> for a number or a string \<open>v\<close>: under the key \<^verbatim>\<open>__proto__\<close> the
  inherited setter is called, which ignores a value that is neither an object nor
  \<^verbatim>\<open>null\<close>; every other key becomes an own property (the inherited methods are
  writable).\<close>

definition set_prop :: "(string \<rightharpoonup> propval) \<Rightarrow> string \<Rightarrow> propval \<Rightarrow> (string \<rightharpoonup> propval)" where
  "set_prop own k v = (if k = ''__proto__'' then own else own(k \<mapsto> v))"

text \<open>The body of the inner loop, on the pair of \<^verbatim>\<open>counters\<close> and \<^verbatim>\<open>result\<close>.\<close>

definition label_cell ::
  "grid \<Rightarrow> nat \<Rightarrow> nat \<Rightarrow> (string \<rightharpoonup> propval) \<times> seatgrid \<Rightarrow> (string \<rightharpoonup> propval) \<times> seatgrid" where
  "label_cell g r c s =
     (case s of (counters, result) \<Rightarrow>
        let d = read_cell g r c;
            counters' = set_prop counters (to_string d) (incremented (get_prop counters (to_string d)));
            ro = to_string d @ ''-'' @ padStart 3 (CHR ''0'') (prop_string (get_prop counters' (to_string d)))
        in (counters', result[r := (result ! r)[c := Some \<lparr>dept = d, roll = ro\<rparr>]]))"

text \<open>Reading \<^verbatim>\<open>grid[0].length\<close> of an empty grid throws a TypeError.\<close>

definition assignRollsToGrid :: "grid \<Rightarrow> error + seatgrid" where
  "assignRollsToGrid g =
     (case g of
        [] \<Rightarrow> Inl TypeError
      | row0 # _ \<Rightarrow>
          (let rows = length g; cols = length row0;
               result = replicate rows (replicate cols None)
           in Inr (snd (fold (\<lambda>r. fold (label_cell g r) [0..<cols]) [0..<rows]
                          (Map.empty, result)))))"

section \<open>attemptAndRender\<close>

text \<open>
  The decisions of the click handler, without the DOM: what it shows. \<open>readCounts\<close> gets
  the numbers parsed from the form; each count is \<^verbatim>\<open>Math.max(0, \<dots>)\<close> of its field.
\<close>

definition departments :: "dept list" where
  "departments = [''CSE'', ''ECE'', ''IT'', ''MECH'', ''CIVIL'']"

definition readCounts :: "(dept \<Rightarrow> int) \<Rightarrow> counts" where
  "readCounts field = map (\<lambda>d. (d, max 0 (field d))) departments"

definition totalCount :: "counts \<Rightarrow> int" where
  "totalCount cs = sum_list (map snd cs)"

datatype shown =
    MismatchAlert
  | NotPossibleAlert
  | Chart seatgrid
  | Uncaught error

text \<open>The loop \<^verbatim>\<open>for(let t=0;t<tries && !seating;t++)\<close>, with the tries that are left.\<close>

fun retry :: "engine_sort \<Rightarrow> nat \<Rightarrow> nat \<Rightarrow> nat \<Rightarrow> counts \<Rightarrow> rnd \<Rightarrow> error + grid option" where
  "retry rs 0 rows cols cs rn = Inr None"
| "retry rs (Suc t) rows cols cs rn =
     (case tryArrange_run rs rows cols cs 30000 rn of
        Rejected \<Rightarrow> retry rs t rows cols cs rn
      | Searched (Inr True) st \<Rightarrow> Inr (Some (grid st))
      | Searched (Inr False) st \<Rightarrow> retry rs t rows cols cs (draws st)
      | Searched (Inl e) st \<Rightarrow> Inl e)"

definition attemptAndRender :: "engine_sort \<Rightarrow> nat \<Rightarrow> nat \<Rightarrow> (dept \<Rightarrow> int) \<Rightarrow> rnd \<Rightarrow> shown" where
  "attemptAndRender rs rows cols field rn =
     (let cs = readCounts field; total = rows * cols; su = totalCount cs
      in if su \<noteq> int total then MismatchAlert
         else
           (case retry rs 5 rows cols cs rn of
              Inl e \<Rightarrow> Uncaught e
            | Inr None \<Rightarrow> NotPossibleAlert
            | Inr (Some seating) \<Rightarrow>
                (case assignRollsToGrid seating of
                   Inl e \<Rightarrow> Uncaught e
                 | Inr seatObjs \<Rightarrow> Chart seatObjs)))"

section \<open>Predicates used in the statements and proofs\<close>

text \<open>The cell with row-major index \<open>i\<close>, and a grid of \<open>rows\<close> rows of \<open>cols\<close> cells.\<close>

definition cell_at :: "nat \<Rightarrow> 'a list list \<Rightarrow> nat \<Rightarrow> 'a" where
  "cell_at cols g i = g ! (i div cols) ! (i mod cols)"

definition well_shaped :: "nat \<Rightarrow> nat \<Rightarrow> 'a list list \<Rightarrow> bool" where
  "well_shaped rows cols g = (length g = rows \<and> (\<forall>row \<in> set g. length row = cols))"

text \<open>Two positions are adjacent when they share an edge: same row and neighbouring
  columns, or same column and neighbouring rows. \<open>adj_ok\<close> is the invariant of the grid
  during the search: no assigned cell has an in-bounds adjacent cell of its category.\<close>

definition adjacent :: "nat \<times> nat \<Rightarrow> nat \<times> nat \<Rightarrow> bool" where
  "adjacent p q =
     ((fst p = fst q \<and> (snd q = Suc (snd p) \<or> snd p = Suc (snd q))) \<or>
      (snd p = snd q \<and> (fst q = Suc (fst p) \<or> fst p = Suc (fst q))))"

definition adj_ok :: "nat \<Rightarrow> nat \<Rightarrow> grid \<Rightarrow> bool" where
  "adj_ok rows cols g =
     (\<forall>r c r' c'. r < rows \<and> c < cols \<and> r' < rows \<and> c' < cols \<and> adjacent (r, c) (r', c')
        \<longrightarrow> g ! r ! c = None \<or> g ! r ! c \<noteq> g ! r' ! c')"

text \<open>What a call of \<open>dfs\<close> (or of its loop) at index \<open>idx\<close> guarantees: shape and
  adjacency stay, the cells before \<open>idx\<close> are untouched, nothing is thrown, success
  leaves every cell from \<open>idx\<close> on assigned, failure restores \<open>countsLeft\<close>.\<close>

definition dfs_post :: "nat \<Rightarrow> nat \<Rightarrow> nat \<Rightarrow> search \<Rightarrow> (error + bool) \<times> search \<Rightarrow> bool" where
  "dfs_post rows cols idx st out =
     (well_shaped rows cols (grid (snd out)) \<and> adj_ok rows cols (grid (snd out)) \<and>
      (\<forall>i<idx. cell_at cols (grid (snd out)) i = cell_at cols (grid st) i) \<and>
      (\<exists>b. fst out = Inr b) \<and>
      (fst out = Inr True \<longrightarrow>
         (\<forall>i<rows * cols. idx \<le> i \<longrightarrow> cell_at cols (grid (snd out)) i \<noteq> None)) \<and>
      (fst out = Inr False \<longrightarrow> countsLeft (snd out) = countsLeft st))"

text \<open>The counting invariant: \<open>placed\<close> counts a category among the first \<open>idx\<close> cells,
  \<open>remaining\<close> is the number of placements \<open>countsLeft\<close> still allows.\<close>

definition placed :: "nat \<Rightarrow> grid \<Rightarrow> nat \<Rightarrow> dept \<Rightarrow> nat" where
  "placed cols g idx d = count_list (map (cell_at cols g) [0..<idx]) (Some d)"

definition remaining :: "counts \<Rightarrow> nat" where
  "remaining cl = sum_list (map (\<lambda>(k, v). nat v) cl)"

definition counts_inv :: "counts \<Rightarrow> nat \<Rightarrow> nat \<Rightarrow> nat \<Rightarrow> grid \<Rightarrow> counts \<Rightarrow> bool" where
  "counts_inv m rows cols idx g cl =
     (map fst cl = map fst m \<and>
      (\<forall>d. int (placed cols g idx d) + count_of cl d = count_of m d) \<and>
      (\<forall>d. min 0 (count_of m d) \<le> count_of cl d) \<and>
      remaining cl + idx = rows * cols)"

text \<open>An engine sort that returns a permutation of the array it is given, as every
  engine's sort does.\<close>

definition permuting :: "engine_sort \<Rightarrow> bool" where
  "permuting rs = (\<forall>rn xs. mset (fst (rs rn xs)) = mset xs)"

text \<open>The state in which \<open>tryArrange\<close> calls \<open>dfs(0)\<close>.\<close>

definition start :: "nat \<Rightarrow> nat \<Rightarrow> counts \<Rightarrow> rnd \<Rightarrow> search" where
  "start rows cols m rn =
     \<lparr>grid = replicate rows (replicate cols None), countsLeft = m, attempts = 0,
      draws = snd (shuffle (build_pool m) rn)\<rparr>"

text \<open>The two ways to name the categories of the 1 by 4 instance.\<close>

definition two_colours :: "dept \<Rightarrow> dept \<Rightarrow> bool" where
  "two_colours x y = ((x = ''A'' \<and> y = ''B'') \<or> (x = ''B'' \<and> y = ''A''))"

text \<open>Reading a decimal string back, and the identifier of category \<open>d\<close> with number \<open>n\<close>.\<close>

definition digit_val :: "char \<Rightarrow> nat" where
  "digit_val ch = of_char ch - 48"

definition str_val :: "string \<Rightarrow> nat" where
  "str_val s = foldl (\<lambda>a ch. 10 * a + digit_val ch) 0 s"

definition ident :: "string \<Rightarrow> nat \<Rightarrow> string" where
  "ident d n = d @ ''-'' @ padStart 3 (CHR ''0'') (digits n)"

text \<open>The closed form of the loops of \<open>assignRollsToGrid\<close>: the values read in row-major
  order, what \<^verbatim>\<open>counters[key]\<close> holds after \<open>n\<close> cells of that key, the own properties of
  \<^verbatim>\<open>counters\<close> and the result after the first \<open>k\<close> cells.\<close>

definition cell_vals :: "grid \<Rightarrow> nat \<Rightarrow> nat \<Rightarrow> jsval list" where
  "cell_vals g rows cols = map (\<lambda>i. read_cell g (i div cols) (i mod cols)) [0..<rows * cols]"

fun read_after :: "string \<Rightarrow> nat \<Rightarrow> propval" where
  "read_after key 0 = get_prop Map.empty key"
| "read_after key (Suc n) =
     (if key = ''__proto__'' then read_after key n else incremented (read_after key n))"

definition tally :: "jsval list \<Rightarrow> string \<rightharpoonup> propval" where
  "tally vs = (\<lambda>key. if count_list (map to_string vs) key = 0 \<or> key = ''__proto__'' then None
                      else Some (read_after key (count_list (map to_string vs) key)))"

definition seat_of :: "jsval list \<Rightarrow> nat \<Rightarrow> seat" where
  "seat_of vs i =
     \<lparr>dept = vs ! i,
      roll = to_string (vs ! i) @ ''-'' @ padStart 3 (CHR ''0'')
               (prop_string (read_after (to_string (vs ! i))
                  (count_list (map to_string (take (Suc i) vs)) (to_string (vs ! i)))))\<rparr>"

definition partial_result :: "nat \<Rightarrow> nat \<Rightarrow> jsval list \<Rightarrow> nat \<Rightarrow> seatgrid" where
  "partial_result rows cols vs k =
     map (\<lambda>r. map (\<lambda>c. if r * cols + c < k then Some (seat_of vs (r * cols + c)) else None)
                [0..<cols]) [0..<rows]"

text \<open>A solved grid: non-empty, every row of length \<open>cols\<close>, every cell assigned.\<close>

definition js_of :: "cell \<Rightarrow> jsval" where
  "js_of x = (case x of None \<Rightarrow> Null | Some d \<Rightarrow> Str d)"

definition solved :: "nat \<Rightarrow> grid \<Rightarrow> bool" where
  "solved cols g = (g \<noteq> [] \<and> list_all (\<lambda>row. length row = cols \<and> None \<notin> set row) g)"

text \<open>No category name of the grid is the name of a property \<^verbatim>\<open>counters\<close> inherits.\<close>

definition own_names :: "grid \<Rightarrow> bool" where
  "own_names g = list_all (\<lambda>x. x \<notin> set (map Some inherited_names)) (concat g)"

section \<open>Lemmas\<close>

subsection \<open>Cells, neighbours and grid updates\<close>

lemma cells_Suc: "cells (Suc rows) cols = cells rows cols @ map (\<lambda>c. (rows, c)) [0..<cols]"
  by (simp add: cells_def)

lemma length_cells [simp]: "length (cells rows cols) = rows * cols"
  by (induction rows) (simp_all add: cells_Suc, simp add: cells_def)

lemma cells_nth: "i < rows * cols \<Longrightarrow> cells rows cols ! i = (i div cols, i mod cols)"
proof (induction rows)
  case 0
  then show ?case by simp
next
  case (Suc rows)
  show ?case
  proof (cases "i < rows * cols")
    case True
    then show ?thesis using Suc.IH by (simp add: cells_Suc nth_append)
  next
    case False
    then have ge: "rows * cols \<le> i" by simp
    from Suc.prems have lt: "i - rows * cols < cols" using ge by simp
    have cpos: "0 < cols" using lt by simp
    have "i = rows * cols + (i - rows * cols)" using ge by simp
    then have d: "i div cols = rows" and m: "i mod cols = i - rows * cols"
      using lt cpos by (metis div_mult_self3 div_less add.right_neutral add.commute not_gr_zero not_less_zero, metis mod_mult_self3 mod_less add.commute)
    show ?thesis using False lt d m by (simp add: cells_Suc nth_append)
  qed
qed

lemma neighbors_iff:
  "r < rows \<Longrightarrow> c < cols \<Longrightarrow>
   (p \<in> set (neighbors r c rows cols)) = (fst p < rows \<and> snd p < cols \<and> adjacent (r, c) p)"
  by (cases p) (auto simp: neighbors_def adjacent_def)

lemma canPlace_iff:
  "r < rows \<Longrightarrow> c < cols \<Longrightarrow>
   canPlace rows cols g r c d =
     (\<forall>r' c'. r' < rows \<and> c' < cols \<and> adjacent (r, c) (r', c') \<longrightarrow> g ! r' ! c' \<noteq> Some d)"
  by (auto simp: canPlace_def list_all_iff neighbors_iff)

lemma idx_in_range: "(i::nat) < rows * cols \<Longrightarrow> i div cols < rows \<and> i mod cols < cols"
proof -
  assume a: "i < rows * cols"
  then have cpos: "0 < cols" by (cases cols) simp_all
  have "i div cols < rows" using a cpos by (simp add: less_mult_imp_div_less)
  then show ?thesis using cpos by simp
qed

lemma idx_eq_iff:
  "0 < cols \<Longrightarrow> (i div cols = j div cols \<and> i mod cols = j mod cols) = (i = (j::nat))"
  by (metis div_mult_mod_eq)

lemma well_shaped_set_cell:
  "well_shaped rows cols g \<Longrightarrow> well_shaped rows cols (set_cell g r c v)"
proof -
  assume ws: "well_shaped rows cols g"
  have "length (set_cell g r c v ! i) = cols" if "i < length g" for i
  proof (cases "i = r")
    case True
    then show ?thesis using ws that by (simp add: well_shaped_def set_cell_def)
  next
    case False
    then show ?thesis using ws that by (simp add: well_shaped_def set_cell_def)
  qed
  moreover have "length (set_cell g r c v) = length g" by (simp add: set_cell_def)
  ultimately show ?thesis using ws
    by (auto simp: well_shaped_def in_set_conv_nth)
qed

lemma set_cell_nth:
  "well_shaped rows cols g \<Longrightarrow> r < rows \<Longrightarrow> c < cols \<Longrightarrow> r' < rows \<Longrightarrow> c' < cols \<Longrightarrow>
   set_cell g r c v ! r' ! c' = (if r' = r \<and> c' = c then v else g ! r' ! c')"
  unfolding well_shaped_def set_cell_def
  by (auto simp: nth_list_update)

lemma cell_at_set_cell:
  assumes "well_shaped rows cols g" "idx < rows * cols" "i < rows * cols"
  shows "cell_at cols (set_cell g (idx div cols) (idx mod cols) v) i =
           (if i = idx then v else cell_at cols g i)"
proof -
  have cpos: "0 < cols" using assms(2) by (cases cols) simp_all
  show ?thesis
    unfolding cell_at_def
    using set_cell_nth [OF assms(1), of "idx div cols" "idx mod cols" "i div cols" "i mod cols" v]
      idx_in_range [OF assms(2)] idx_in_range [OF assms(3)] idx_eq_iff [OF cpos, of i idx]
    by auto
qed

lemma adjacent_sym: "adjacent p q = adjacent q p"
  by (auto simp: adjacent_def)

lemma adjacent_irrefl: "\<not> adjacent p p"
  by (auto simp: adjacent_def)

lemma adj_ok_place:
  assumes ws: "well_shaped rows cols g" and ok: "adj_ok rows cols g"
    and r: "r < rows" and c: "c < cols" and cp: "canPlace rows cols g r c d"
  shows "adj_ok rows cols (set_cell g r c (Some d))"
  unfolding adj_ok_def
proof (intro allI impI)
  fix r1 c1 r2 c2
  assume h: "r1 < rows \<and> c1 < cols \<and> r2 < rows \<and> c2 < cols \<and> adjacent (r1, c1) (r2, c2)"
  let ?g = "set_cell g r c (Some d)"
  have n1: "?g ! r1 ! c1 = (if r1 = r \<and> c1 = c then Some d else g ! r1 ! c1)"
    using set_cell_nth [OF ws r c] h by simp
  have n2: "?g ! r2 ! c2 = (if r2 = r \<and> c2 = c then Some d else g ! r2 ! c2)"
    using set_cell_nth [OF ws r c] h by simp
  have free: "\<And>r' c'. r' < rows \<Longrightarrow> c' < cols \<Longrightarrow> adjacent (r, c) (r', c') \<Longrightarrow> g ! r' ! c' \<noteq> Some d"
    using cp canPlace_iff [OF r c] by blast
  have old: "g ! r1 ! c1 = None \<or> g ! r1 ! c1 \<noteq> g ! r2 ! c2"
    using ok h unfolding adj_ok_def by blast
  show "?g ! r1 ! c1 = None \<or> ?g ! r1 ! c1 \<noteq> ?g ! r2 ! c2"
  proof (cases "r1 = r \<and> c1 = c")
    case True
    then have ne: "\<not> (r2 = r \<and> c2 = c)" using h adjacent_irrefl by auto
    have "g ! r2 ! c2 \<noteq> Some d" using free [of r2 c2] h True by auto
    then show ?thesis using n1 n2 True ne by auto
  next
    case False
    show ?thesis
    proof (cases "r2 = r \<and> c2 = c")
      case True
      have "adjacent (r, c) (r1, c1)" using h True adjacent_sym by blast
      then have "g ! r1 ! c1 \<noteq> Some d" using free [of r1 c1] h by auto
      then show ?thesis using n1 n2 True False by auto
    next
      case F2: False
      then show ?thesis using n1 n2 False old by auto
    qed
  qed
qed

lemma adj_ok_clear:
  assumes ws: "well_shaped rows cols g" and ok: "adj_ok rows cols g"
    and r: "r < rows" and c: "c < cols"
  shows "adj_ok rows cols (set_cell g r c None)"
  unfolding adj_ok_def
proof (intro allI impI)
  fix r1 c1 r2 c2
  assume h: "r1 < rows \<and> c1 < cols \<and> r2 < rows \<and> c2 < cols \<and> adjacent (r1, c1) (r2, c2)"
  let ?g = "set_cell g r c None"
  have n1: "?g ! r1 ! c1 = (if r1 = r \<and> c1 = c then None else g ! r1 ! c1)"
    using set_cell_nth [OF ws r c] h by simp
  have n2: "?g ! r2 ! c2 = (if r2 = r \<and> c2 = c then None else g ! r2 ! c2)"
    using set_cell_nth [OF ws r c] h by simp
  have old: "g ! r1 ! c1 = None \<or> g ! r1 ! c1 \<noteq> g ! r2 ! c2"
    using ok h unfolding adj_ok_def by blast
  show "?g ! r1 ! c1 = None \<or> ?g ! r1 ! c1 \<noteq> ?g ! r2 ! c2"
    using n1 n2 old by auto
qed

lemma bump_bump: "bump (bump m d (- 1)) d 1 = m"
  by (induction m) (auto simp: bump_def)

subsection \<open>The search keeps shape and adjacency\<close>

declare dfs.simps [simp del]

lemma dfs_unfold:
  "dfs rs rows cols al idx st =
     (if al < attempts st + 1 then (Inr False, st\<lparr>attempts := attempts st + 1\<rparr>)
      else if idx = rows * cols then (Inr True, st\<lparr>attempts := attempts st + 1\<rparr>)
      else if idx < rows * cols then
        place rs rows cols al idx (idx div cols) (idx mod cols)
          (fst (reorder rs (candidates (countsLeft st)) (draws st)))
          (st\<lparr>attempts := attempts st + 1,
              draws := snd (reorder rs (candidates (countsLeft st)) (draws st))\<rparr>)
      else (Inl TypeError, st\<lparr>attempts := attempts st + 1\<rparr>))"
  by (subst dfs.simps) (simp add: Let_def cells_nth case_prod_beta)

lemma dfs_post_cong:
  "grid st = grid st2 \<Longrightarrow> countsLeft st = countsLeft st2 \<Longrightarrow>
   dfs_post rows cols idx st out = dfs_post rows cols idx st2 out"
  by (simp add: dfs_post_def)

lemma dfs_place_structure:
  "well_shaped rows cols (grid st) \<Longrightarrow> adj_ok rows cols (grid st) \<Longrightarrow> idx \<le> rows * cols \<Longrightarrow>
     dfs_post rows cols idx st (dfs rs rows cols al idx st)"
  "well_shaped rows cols (grid st) \<Longrightarrow> adj_ok rows cols (grid st) \<Longrightarrow> idx < rows * cols \<Longrightarrow>
     r = idx div cols \<Longrightarrow> c = idx mod cols \<Longrightarrow>
     dfs_post rows cols idx st (place rs rows cols al idx r c ds st)"
proof (induction rs rows cols al idx st and rs rows cols al idx r c ds st rule: dfs_place.induct)
  case (1 rs rows cols al idx st)
  let ?st1 = "st\<lparr>attempts := attempts st + 1\<rparr>"
  let ?R = "reorder rs (candidates (countsLeft ?st1)) (draws ?st1)"
  show ?case
  proof (cases "al < attempts ?st1")
    case True
    then show ?thesis using "1.prems" by (auto simp: dfs_unfold dfs_post_def)
  next
    case budget: False
    show ?thesis
    proof (cases "idx = rows * cols")
      case True
      then show ?thesis using "1.prems" budget by (auto simp: dfs_unfold dfs_post_def)
    next
      case False
      then have lt: "idx < rows * cols" using "1.prems" by simp
      have eq: "dfs rs rows cols al idx st =
          place rs rows cols al idx (idx div cols) (idx mod cols) (fst ?R) (?st1\<lparr>draws := snd ?R\<rparr>)"
        using budget False lt by (simp add: dfs_unfold)
      have c: "(idx div cols, idx mod cols) = cells rows cols ! idx"
        using lt by (simp add: cells_nth)
      have "dfs_post rows cols idx (?st1\<lparr>draws := snd ?R\<rparr>)
              (place rs rows cols al idx (idx div cols) (idx mod cols) (fst ?R) (?st1\<lparr>draws := snd ?R\<rparr>))"
        using "1.IH" [OF refl budget _ _ refl c refl refl, of "fst ?R" "snd ?R"]
          False lt "1.prems" by simp
      then show ?thesis
        unfolding eq by (simp add: dfs_post_def)
    qed
  qed
next
  case (2 rs rows cols al idx r c st)
  then show ?case by (auto simp: dfs_post_def)
next
  case (3 rs rows cols al idx r c d ds st)
  have rc: "r < rows" "c < cols" using "3.prems" idx_in_range by auto
  show ?case
  proof (cases "canPlace rows cols (grid st) r c d")
    case False
    then show ?thesis using "3.IH"(1) "3.prems" by simp
  next
    case True
    let ?sp = "st\<lparr>grid := set_cell (grid st) r c (Some d),
                    countsLeft := bump (countsLeft st) d (- 1)\<rparr>"
    obtain x y where xy: "(x, y) = dfs rs rows cols al (idx + 1) ?sp" by (metis surj_pair)
    have ws: "well_shaped rows cols (grid ?sp)"
      using "3.prems" by (simp add: well_shaped_set_cell)
    have ok: "adj_ok rows cols (grid ?sp)"
      using "3.prems" rc True by (simp add: adj_ok_place)
    have post: "dfs_post rows cols (idx + 1) ?sp (x, y)"
      using "3.IH"(2) [OF _ ws ok] True "3.prems" xy by simp
    have keep: "\<forall>i<idx. cell_at cols (grid y) i = cell_at cols (grid st) i"
    proof (intro allI impI)
      fix i assume i: "i < idx"
      then have "cell_at cols (grid y) i = cell_at cols (grid ?sp) i"
        using post by (simp add: dfs_post_def)
      also have "\<dots> = cell_at cols (grid st) i"
        using cell_at_set_cell [OF "3.prems"(1) "3.prems"(3), of i "Some d"] i "3.prems" by simp
      finally show "cell_at cols (grid y) i = cell_at cols (grid st) i" .
    qed
    have here: "cell_at cols (grid y) idx = Some d"
    proof -
      have "cell_at cols (grid y) idx = cell_at cols (grid ?sp) idx"
        using post by (simp add: dfs_post_def)
      then show ?thesis
        using cell_at_set_cell [OF "3.prems"(1) "3.prems"(3) "3.prems"(3), of "Some d"] "3.prems" by simp
    qed
    from post obtain b where b: "x = Inr b" by (auto simp: dfs_post_def)
    show ?thesis
    proof (cases b)
      case bt: True
      have eq: "place rs rows cols al idx r c (d # ds) st = (Inr True, y)"
        using True xy [symmetric] b bt by simp
      have "\<forall>i<rows * cols. idx \<le> i \<longrightarrow> cell_at cols (grid y) i \<noteq> None"
      proof (intro allI impI)
        fix i assume i: "i < rows * cols" "idx \<le> i"
        show "cell_at cols (grid y) i \<noteq> None"
        proof (cases "i = idx")
          case True
          then show ?thesis using here by simp
        next
          case False
          then have "idx + 1 \<le> i" using i by simp
          then show ?thesis using post b bt i by (simp add: dfs_post_def)
        qed
      qed
      then show ?thesis unfolding eq using post keep by (auto simp: dfs_post_def)
    next
      case bf: False
      let ?u = "y\<lparr>grid := set_cell (grid y) r c None, countsLeft := bump (countsLeft y) d 1\<rparr>"
      have eq: "place rs rows cols al idx r c (d # ds) st = place rs rows cols al idx r c ds ?u"
        using True xy [symmetric] b bf by simp
      have wsy: "well_shaped rows cols (grid y)" and oky: "adj_ok rows cols (grid y)"
        using post by (simp_all add: dfs_post_def)
      have wsu: "well_shaped rows cols (grid ?u)" using wsy by (simp add: well_shaped_set_cell)
      have oku: "adj_ok rows cols (grid ?u)" using wsy oky rc by (simp add: adj_ok_clear)
      have cly: "countsLeft y = bump (countsLeft st) d (- 1)"
        using post b bf by (simp add: dfs_post_def)
      have clu: "countsLeft ?u = countsLeft st" using cly by (simp add: bump_bump)
      have bF: "b = False" using bf by simp
      have pu: "dfs_post rows cols idx ?u (place rs rows cols al idx r c ds ?u)"
        using "3.IH"(3) [OF _ xy b bF wsu oku] True "3.prems" by simp
      have ku: "\<forall>i<idx. cell_at cols (grid ?u) i = cell_at cols (grid st) i"
        using keep cell_at_set_cell [OF wsy "3.prems"(3), of _ None] "3.prems" by simp
      show ?thesis unfolding eq using pu ku clu by (simp add: dfs_post_def)
    qed
  qed
qed

subsection \<open>The search keeps the counts\<close>

lemma map_fst_bump [simp]: "map fst (bump m d k) = map fst m"
  by (induction m) (auto simp: bump_def)

lemma map_of_bump:
  "map_of (bump m d k) d' =
     (if d' = d then map_option (\<lambda>n. n + k) (map_of m d) else map_of m d')"
  by (induction m) (auto simp: bump_def)

lemma count_of_bump:
  "count_of (bump m d k) d' =
     (if d' = d \<and> d \<in> set (map fst m) then count_of m d + k else count_of m d')"
proof (cases "map_of m d")
  case None
  then have "d \<notin> set (map fst m)" by (simp add: map_of_eq_None_iff)
  then show ?thesis using None by (simp add: count_of_def map_of_bump)
next
  case (Some n)
  then have "d \<in> set (map fst m)" by (metis map_of_eq_None_iff option.distinct(1) set_map)
  then show ?thesis using Some by (simp add: count_of_def map_of_bump)
qed

lemma remaining_bump:
  "distinct (map fst cl) \<Longrightarrow> d \<in> set (map fst cl) \<Longrightarrow> 0 < count_of cl d \<Longrightarrow>
   remaining (bump cl d (- 1)) + 1 = remaining cl"
proof (induction cl)
  case Nil
  then show ?case by simp
next
  case (Cons p cl)
  obtain k v where p: "p = (k, v)" by (cases p)
  show ?case
  proof (cases "k = d")
    case True
    then have "d \<notin> set (map fst cl)" using Cons.prems p by auto
    then have same: "bump cl d (- 1) = cl"
      by (induction cl) (auto simp: bump_def)
    have "0 < v" using Cons.prems True p by (simp add: count_of_def)
    then show ?thesis using True p same by (simp add: remaining_def bump_def)
  next
    case False
    then have "remaining (bump cl d (- 1)) + 1 = remaining cl"
      using Cons p by (auto simp: count_of_def)
    then show ?thesis using False p by (simp add: remaining_def bump_def)
  qed
qed

lemma placed_Suc:
  "placed cols g (Suc idx) d = placed cols g idx d + (if cell_at cols g idx = Some d then 1 else 0)"
  by (simp add: placed_def)

lemma placed_cong:
  "(\<forall>i<idx. cell_at cols g i = cell_at cols g' i) \<Longrightarrow> placed cols g idx d = placed cols g' idx d"
proof -
  assume "\<forall>i<idx. cell_at cols g i = cell_at cols g' i"
  then have "map (cell_at cols g) [0..<idx] = map (cell_at cols g') [0..<idx]" by simp
  then show ?thesis by (simp only: placed_def)
qed

lemma set_candidates:
  "set (candidates cl) = {d \<in> set (map fst cl). 0 < count_of cl d}"
  by (auto simp: candidates_def object_keys_def)

lemma set_reorder:
  "permuting rs \<Longrightarrow> set (fst (reorder rs cand rn)) = set cand"
  unfolding permuting_def reorder_def
  by (auto dest: mset_eq_setD)

lemma length_reorder:
  "permuting rs \<Longrightarrow> length (fst (reorder rs cand rn)) = length cand"
  unfolding permuting_def reorder_def
  by (auto dest: mset_eq_length)

lemma counts_inv_place:
  assumes ws: "well_shaped rows cols g" and lt: "idx < rows * cols"
    and dk: "distinct (map fst m)"
    and inv: "counts_inv m rows cols idx g cl"
    and d: "d \<in> set (map fst m)" "0 < count_of cl d"
  shows "counts_inv m rows cols (idx + 1)
           (set_cell g (idx div cols) (idx mod cols) (Some d)) (bump cl d (- 1))"
proof -
  let ?g = "set_cell g (idx div cols) (idx mod cols) (Some d)"
  have keys: "map fst cl = map fst m" using inv by (simp add: counts_inv_def)
  have here: "cell_at cols ?g idx = Some d"
    using cell_at_set_cell [OF ws lt lt] by simp
  have "\<forall>i<idx. cell_at cols ?g i = cell_at cols g i"
    using cell_at_set_cell [OF ws lt] lt by simp
  then have before: "placed cols ?g idx d' = placed cols g idx d'" for d'
    by (rule placed_cong)
  have p: "placed cols ?g (idx + 1) d' = placed cols g idx d' + (if d' = d then 1 else 0)" for d'
    using placed_Suc [of cols ?g idx d'] here before by auto
  have c: "count_of (bump cl d (- 1)) d' = count_of cl d' - (if d' = d then 1 else 0)" for d'
    using d keys by (simp add: count_of_bump)
  have k2: "\<forall>d'. int (placed cols ?g (idx + 1) d') + count_of (bump cl d (- 1)) d' = count_of m d'"
    using inv p c by (auto simp: counts_inv_def)
  have k3: "\<forall>d'. min 0 (count_of m d') \<le> count_of (bump cl d (- 1)) d'"
  proof
    fix d'
    show "min 0 (count_of m d') \<le> count_of (bump cl d (- 1)) d'"
    proof (cases "d' = d")
      case True
      then show ?thesis using c [of d'] d by simp
    next
      case False
      then show ?thesis using c [of d'] inv by (simp add: counts_inv_def)
    qed
  qed
  have k4: "remaining (bump cl d (- 1)) + (idx + 1) = rows * cols"
    using remaining_bump [of cl d] dk keys d inv by (simp add: counts_inv_def)
  show ?thesis using keys k2 k3 k4 by (simp add: counts_inv_def)
qed

lemma counts_inv_cong:
  "(\<forall>i<idx. cell_at cols g i = cell_at cols g' i) \<Longrightarrow>
   counts_inv m rows cols idx g cl = counts_inv m rows cols idx g' cl"
proof -
  assume "\<forall>i<idx. cell_at cols g i = cell_at cols g' i"
  then have "\<And>d. placed cols g idx d = placed cols g' idx d" by (rule placed_cong)
  then show ?thesis by (simp add: counts_inv_def)
qed

lemma dfs_place_counts:
  "permuting rs \<Longrightarrow> distinct (map fst m) \<Longrightarrow>
   well_shaped rows cols (grid st) \<Longrightarrow> adj_ok rows cols (grid st) \<Longrightarrow> idx \<le> rows * cols \<Longrightarrow>
   counts_inv m rows cols idx (grid st) (countsLeft st) \<Longrightarrow>
   fst (dfs rs rows cols al idx st) = Inr True \<Longrightarrow>
     counts_inv m rows cols (rows * cols) (grid (snd (dfs rs rows cols al idx st)))
       (countsLeft (snd (dfs rs rows cols al idx st)))"
  "permuting rs \<Longrightarrow> distinct (map fst m) \<Longrightarrow>
   well_shaped rows cols (grid st) \<Longrightarrow> adj_ok rows cols (grid st) \<Longrightarrow> idx < rows * cols \<Longrightarrow>
   r = idx div cols \<Longrightarrow> c = idx mod cols \<Longrightarrow>
   counts_inv m rows cols idx (grid st) (countsLeft st) \<Longrightarrow>
   (\<forall>d\<in>set ds. d \<in> set (map fst m) \<and> 0 < count_of (countsLeft st) d) \<Longrightarrow>
   fst (place rs rows cols al idx r c ds st) = Inr True \<Longrightarrow>
     counts_inv m rows cols (rows * cols) (grid (snd (place rs rows cols al idx r c ds st)))
       (countsLeft (snd (place rs rows cols al idx r c ds st)))"
proof (induction rs rows cols al idx st and rs rows cols al idx r c ds st rule: dfs_place.induct)
  case (1 rs rows cols al idx st)
  let ?st1 = "st\<lparr>attempts := attempts st + 1\<rparr>"
  let ?R = "reorder rs (candidates (countsLeft ?st1)) (draws ?st1)"
  have budget: "\<not> al < attempts ?st1"
    using "1.prems"(7) by (auto simp: dfs_unfold split: if_splits)
  show ?case
  proof (cases "idx = rows * cols")
    case True
    then show ?thesis using "1.prems" budget by (simp add: dfs_unfold)
  next
    case False
    then have lt: "idx < rows * cols" using "1.prems" by simp
    have eq: "dfs rs rows cols al idx st =
        place rs rows cols al idx (idx div cols) (idx mod cols) (fst ?R) (?st1\<lparr>draws := snd ?R\<rparr>)"
      using budget False lt by (simp add: dfs_unfold)
    have c: "(idx div cols, idx mod cols) = cells rows cols ! idx"
      using lt by (simp add: cells_nth)
    have keys: "map fst (countsLeft st) = map fst m"
      using "1.prems"(6) by (simp add: counts_inv_def)
    have cands: "\<forall>d\<in>set (fst ?R). d \<in> set (map fst m) \<and> 0 < count_of (countsLeft st) d"
      using set_reorder [OF "1.prems"(1)] set_candidates [of "countsLeft st"] keys by simp
    show ?thesis
      unfolding eq
      using "1.IH" [OF refl budget _ _ refl c refl refl, of "fst ?R" "snd ?R"]
        False lt "1.prems" cands eq by simp
  qed
next
  case (2 rs rows cols al idx r c st)
  then show ?case by simp
next
  case (3 rs rows cols al idx r c d ds st)
  have rc: "r < rows" "c < cols" using "3.prems" idx_in_range by auto
  show ?case
  proof (cases "canPlace rows cols (grid st) r c d")
    case False
    then show ?thesis using "3.IH"(1) "3.prems" by simp
  next
    case True
    let ?sp = "st\<lparr>grid := set_cell (grid st) r c (Some d),
                    countsLeft := bump (countsLeft st) d (- 1)\<rparr>"
    obtain x y where xy: "(x, y) = dfs rs rows cols al (idx + 1) ?sp" by (metis surj_pair)
    have ws: "well_shaped rows cols (grid ?sp)"
      using "3.prems" by (simp add: well_shaped_set_cell)
    have ok: "adj_ok rows cols (grid ?sp)"
      using "3.prems" rc True by (simp add: adj_ok_place)
    have post: "dfs_post rows cols (idx + 1) ?sp (x, y)"
      using dfs_place_structure(1) [OF ws ok, of "idx + 1" rs al] "3.prems" xy by simp
    have inv: "counts_inv m rows cols (idx + 1) (grid ?sp) (countsLeft ?sp)"
      using counts_inv_place [OF "3.prems"(3) "3.prems"(5) "3.prems"(2) "3.prems"(8), of d]
        "3.prems" by simp
    from post obtain b where b: "x = Inr b" by (auto simp: dfs_post_def)
    show ?thesis
    proof (cases b)
      case bt: True
      have eq: "place rs rows cols al idx r c (d # ds) st = (Inr True, y)"
        using True xy [symmetric] b bt by simp
      have "counts_inv m rows cols (rows * cols) (grid y) (countsLeft y)"
        using "3.IH"(2) [OF _ "3.prems"(1) "3.prems"(2) ws ok _ inv] True "3.prems" xy [symmetric] b bt
        by simp
      then show ?thesis unfolding eq by simp
    next
      case bf: False
      let ?u = "y\<lparr>grid := set_cell (grid y) r c None, countsLeft := bump (countsLeft y) d 1\<rparr>"
      have eq: "place rs rows cols al idx r c (d # ds) st = place rs rows cols al idx r c ds ?u"
        using True xy [symmetric] b bf by simp
      have wsy: "well_shaped rows cols (grid y)" and oky: "adj_ok rows cols (grid y)"
        using post by (simp_all add: dfs_post_def)
      have wsu: "well_shaped rows cols (grid ?u)" using wsy by (simp add: well_shaped_set_cell)
      have oku: "adj_ok rows cols (grid ?u)" using wsy oky rc by (simp add: adj_ok_clear)
      have cly: "countsLeft y = bump (countsLeft st) d (- 1)"
        using post b bf by (simp add: dfs_post_def)
      have clu: "countsLeft ?u = countsLeft st" using cly by (simp add: bump_bump)
      have "\<forall>i<idx. cell_at cols (grid y) i = cell_at cols (grid ?sp) i"
        using post by (simp add: dfs_post_def)
      then have ku: "\<forall>i<idx. cell_at cols (grid ?u) i = cell_at cols (grid st) i"
        using cell_at_set_cell [OF wsy "3.prems"(5), of _ None]
          cell_at_set_cell [OF "3.prems"(3) "3.prems"(5), of _ "Some d"] "3.prems" by simp
      have invu: "counts_inv m rows cols idx (grid ?u) (countsLeft ?u)"
        using counts_inv_cong [OF ku, of m rows] "3.prems"(8) clu by simp
      have bF: "b = False" using bf by simp
      have cs: "\<forall>d\<in>set ds. d \<in> set (map fst m) \<and> 0 < count_of (countsLeft ?u) d"
        using "3.prems"(9) clu by simp
      show ?thesis
        unfolding eq
        using "3.IH"(3) [OF _ xy b bF "3.prems"(1) "3.prems"(2) wsu oku "3.prems"(5) "3.prems"(6) "3.prems"(7) invu cs]
          True "3.prems"(10) eq by simp
    qed
  qed
qed

subsection \<open>What a returned grid satisfies\<close>

lemma well_shaped_empty_grid: "well_shaped rows cols (replicate rows (replicate cols None))"
  by (simp add: well_shaped_def)

lemma adj_ok_empty_grid: "adj_ok rows cols (replicate rows (replicate cols None))"
  by (simp add: adj_ok_def)

lemma concat_cell_at:
  "well_shaped rows cols g \<Longrightarrow> concat g = map (cell_at cols g) [0..<rows * cols]"
proof (induction g arbitrary: rows)
  case Nil
  then show ?case by (simp add: well_shaped_def)
next
  case (Cons row g)
  then obtain n where n: "rows = Suc n" and ws: "well_shaped n cols g" and len: "length row = cols"
    by (cases rows) (auto simp: well_shaped_def)
  show ?case
  proof (cases "cols = 0")
    case True
    then have "concat (row # g) = []" using Cons.prems by (auto simp: well_shaped_def)
    then show ?thesis using True by simp
  next
    case False
    have a: "map (cell_at cols (row # g)) [0..<cols] = row"
    proof -
      have "map (cell_at cols (row # g)) [0..<cols] = map ((!) row) [0..<length row]"
        using len by (simp add: cell_at_def)
      then show ?thesis by (simp only: map_nth)
    qed
    have sh: "cell_at cols (row # g) (i + cols) = cell_at cols g i" for i
      using False by (simp add: cell_at_def)
    have "[cols..<cols + n * cols] = map (\<lambda>i. i + cols) [0..<n * cols]"
      by (simp only: map_add_upt add.commute)
    then have b: "map (cell_at cols (row # g)) [cols..<cols + n * cols] = map (cell_at cols g) [0..<n * cols]"
      by (simp add: sh comp_def del: map_add_upt)
    have "[0..<rows * cols] = [0..<cols] @ [cols..<cols + n * cols]"
      using n by (simp add: upt_add_eq_append [symmetric])
    then show ?thesis using a b Cons.IH [OF ws] by simp
  qed
qed

lemma tryArrange_run_unfold:
  "tryArrange_run rs rows cols m al rn =
     (if length (build_pool m) \<noteq> rows * cols then Rejected
      else Searched (fst (dfs rs rows cols al 0 (start rows cols m rn)))
             (snd (dfs rs rows cols al 0 (start rows cols m rn))))"
  by (simp add: tryArrange_run_def start_def Let_def case_prod_beta)

lemma start_post:
  "dfs_post rows cols 0 (start rows cols m rn) (dfs rs rows cols al 0 (start rows cols m rn))"
  by (rule dfs_place_structure(1))
    (simp_all add: start_def well_shaped_empty_grid adj_ok_empty_grid)

lemma tryArrange_success:
  assumes "tryArrange rs rows cols m al rn = Inr (Some g)"
  shows "length (build_pool m) = rows * cols"
    and "fst (dfs rs rows cols al 0 (start rows cols m rn)) = Inr True"
    and "grid (snd (dfs rs rows cols al 0 (start rows cols m rn))) = g"
  using assms
  by (auto simp: tryArrange_def tryArrange_run_unfold split: if_splits sum.splits bool.splits)

lemma tryArrange_never_throws: "tryArrange rs rows cols m al rn \<noteq> Inl e"
  using start_post [of rows cols m rn rs al]
  by (auto simp: tryArrange_def tryArrange_run_unfold dfs_post_def split: sum.splits bool.splits)

lemma full_cells:
  assumes "\<forall>i<rows * cols. cell_at cols g i \<noteq> None" "r < rows" "c < cols"
  shows "g ! r ! c \<noteq> None"
proof -
  have "r * cols + c < rows * cols"
  proof -
    have "r * cols + c < r * cols + cols" using assms(3) by simp
    also have "\<dots> = Suc r * cols" by simp
    also have "\<dots> \<le> rows * cols" using assms(2) by (intro mult_le_mono1) simp
    finally show ?thesis .
  qed
  then have "cell_at cols g (r * cols + c) \<noteq> None" using assms(1) by blast
  then show ?thesis using assms(3) by (simp add: cell_at_def)
qed

lemma solved_grid:
  assumes "tryArrange rs rows cols m al rn = Inr (Some g)"
  shows "well_shaped rows cols g" and "adj_ok rows cols g"
    and "\<forall>r<rows. \<forall>c<cols. g ! r ! c \<noteq> None"
proof -
  note s = tryArrange_success [OF assms]
  have post: "dfs_post rows cols 0 (start rows cols m rn) (dfs rs rows cols al 0 (start rows cols m rn))"
    by (rule start_post)
  show "well_shaped rows cols g" "adj_ok rows cols g"
    using post s by (simp_all add: dfs_post_def)
  have "\<forall>i<rows * cols. cell_at cols g i \<noteq> None"
    using post s by (simp add: dfs_post_def)
  then show "\<forall>r<rows. \<forall>c<cols. g ! r ! c \<noteq> None"
    using full_cells by blast
qed

lemma solved_adjacent:
  assumes "tryArrange rs rows cols m al rn = Inr (Some g)"
    and "r < rows" "c < cols" "r' < rows" "c' < cols" "adjacent (r, c) (r', c')"
  shows "g ! r ! c \<noteq> g ! r' ! c'"
  using solved_grid(2,3) [OF assms(1)] assms(2-) unfolding adj_ok_def by blast

lemma count_of_distinct:
  "distinct (map fst m) \<Longrightarrow> (d, n) \<in> set m \<Longrightarrow> count_of m d = n"
  by (simp add: count_of_def)

lemma length_pool_aux:
  "(\<forall>p\<in>set m. cnt (fst p) = snd p) \<Longrightarrow>
   length (concat (map (\<lambda>d. replicate (nat (cnt d)) d) (filter (\<lambda>d. 0 < cnt d) (map fst m)))) =
   remaining m"
  by (induction m) (auto simp: remaining_def)

lemma length_build_pool:
  assumes "distinct (map fst m)"
  shows "length (build_pool m) = remaining m"
proof -
  have "\<forall>p\<in>set m. count_of m (fst p) = snd p"
    using count_of_distinct [OF assms] by auto
  then show ?thesis
    unfolding build_pool_def object_keys_def Let_def by (rule length_pool_aux)
qed

lemma remaining_nonneg:
  "(\<forall>p\<in>set m. 0 \<le> snd p) \<Longrightarrow> int (remaining m) = sum_list (map snd m)"
  by (induction m) (auto simp: remaining_def)

lemma remaining_zero:
  "remaining cl = 0 \<Longrightarrow> count_of cl d \<le> 0"
proof -
  assume z: "remaining cl = 0"
  then have "\<forall>p\<in>set cl. snd p \<le> 0" by (auto simp: remaining_def)
  then show ?thesis
    by (auto simp: count_of_def split: option.splits dest!: map_of_SomeD)
qed

lemma counts_inv_start:
  "distinct (map fst m) \<Longrightarrow> length (build_pool m) = rows * cols \<Longrightarrow>
   counts_inv m rows cols 0 (grid (start rows cols m rn)) (countsLeft (start rows cols m rn))"
  by (simp add: counts_inv_def start_def placed_def length_build_pool)

lemma solved_counts:
  assumes p: "permuting rs" and dk: "distinct (map fst m)"
    and s: "tryArrange rs rows cols m al rn = Inr (Some g)"
  shows "int (count_list (concat g) (Some d)) = max 0 (count_of m d)"
proof -
  note t = tryArrange_success [OF s]
  let ?out = "dfs rs rows cols al 0 (start rows cols m rn)"
  have ws0: "well_shaped rows cols (grid (start rows cols m rn))"
    and ok0: "adj_ok rows cols (grid (start rows cols m rn))"
    by (simp_all add: start_def well_shaped_empty_grid adj_ok_empty_grid)
  have inv: "counts_inv m rows cols (rows * cols) (grid (snd ?out)) (countsLeft (snd ?out))"
    using dfs_place_counts(1) [OF p dk ws0 ok0 _ counts_inv_start [OF dk t(1)] t(2)] by simp
  let ?cl = "countsLeft (snd ?out)"
  have pl: "placed cols g (rows * cols) d = count_list (concat g) (Some d)"
    using concat_cell_at [OF solved_grid(1) [OF s]] by (simp add: placed_def)
  have k2: "int (placed cols g (rows * cols) d) + count_of ?cl d = count_of m d"
    and k3: "min 0 (count_of m d) \<le> count_of ?cl d"
    and k4: "remaining ?cl = 0"
    using inv t(3) by (simp_all add: counts_inv_def)
  have "count_of ?cl d \<le> 0" using k4 by (rule remaining_zero)
  then show ?thesis using k2 k3 pl by auto
qed

subsection \<open>The attempt counter\<close>

lemma length_bump [simp]: "length (bump m d k) = length m"
  by (simp add: bump_def)

lemma length_candidates: "length (candidates cl) \<le> length cl"
  by (simp add: candidates_def object_keys_def)

lemma dfs_place_attempts:
  "permuting rs \<Longrightarrow>
   well_shaped rows cols (grid st) \<Longrightarrow> adj_ok rows cols (grid st) \<Longrightarrow> idx \<le> rows * cols \<Longrightarrow>
   length (countsLeft st) = K \<Longrightarrow>
     attempts st < attempts (snd (dfs rs rows cols al idx st)) \<and>
     (al \<le> attempts st \<longrightarrow> attempts (snd (dfs rs rows cols al idx st)) = attempts st + 1) \<and>
     attempts (snd (dfs rs rows cols al idx st)) \<le> max al (attempts st) + 1 + (rows * cols - idx) * K"
  "permuting rs \<Longrightarrow>
   well_shaped rows cols (grid st) \<Longrightarrow> adj_ok rows cols (grid st) \<Longrightarrow> idx < rows * cols \<Longrightarrow>
   r = idx div cols \<Longrightarrow> c = idx mod cols \<Longrightarrow>
   length (countsLeft st) = K \<Longrightarrow>
     attempts st \<le> attempts (snd (place rs rows cols al idx r c ds st)) \<and>
     attempts (snd (place rs rows cols al idx r c ds st))
       \<le> max (al + 1 + (rows * cols - idx - 1) * K) (attempts st) + length ds"
proof (induction rs rows cols al idx st and rs rows cols al idx r c ds st rule: dfs_place.induct)
  case (1 rs rows cols al idx st)
  let ?st1 = "st\<lparr>attempts := attempts st + 1\<rparr>"
  let ?R = "reorder rs (candidates (countsLeft ?st1)) (draws ?st1)"
  show ?case
  proof (cases "al < attempts ?st1")
    case True
    then show ?thesis by (simp add: dfs_unfold)
  next
    case budget: False
    show ?thesis
    proof (cases "idx = rows * cols")
      case True
      then show ?thesis using budget by (simp add: dfs_unfold)
    next
      case False
      then have lt: "idx < rows * cols" using "1.prems" by simp
      have eq: "dfs rs rows cols al idx st =
          place rs rows cols al idx (idx div cols) (idx mod cols) (fst ?R) (?st1\<lparr>draws := snd ?R\<rparr>)"
        using budget False lt by (simp add: dfs_unfold)
      have c: "(idx div cols, idx mod cols) = cells rows cols ! idx"
        using lt by (simp add: cells_nth)
      have len: "length (fst ?R) \<le> K"
        using length_reorder [OF "1.prems"(1)] length_candidates [of "countsLeft st"] "1.prems"(5)
        by simp
      let ?a' = "attempts (snd (place rs rows cols al idx (idx div cols) (idx mod cols) (fst ?R) (?st1\<lparr>draws := snd ?R\<rparr>)))"
      have ih: "attempts st + 1 \<le> ?a' \<and>
                ?a' \<le> max (al + 1 + (rows * cols - idx - 1) * K) (attempts st + 1) + length (fst ?R)"
        using "1.IH" [OF refl budget _ _ refl c refl refl, of "fst ?R" "snd ?R"]
          False lt "1.prems" by simp
      have "(rows * cols - idx - 1) * K + K = (rows * cols - idx) * K"
        using lt by (metis Suc_diff_Suc diff_Suc_eq_diff_pred mult_Suc diff_Suc_1 add.commute Suc_pred zero_less_diff)
      then have "?a' \<le> max al (attempts st) + 1 + (rows * cols - idx) * K"
        using ih len budget by simp
      then show ?thesis unfolding eq using ih budget by simp
    qed
  qed
next
  case (2 rs rows cols al idx r c st)
  then show ?case by simp
next
  case (3 rs rows cols al idx r c d ds st)
  have rc: "r < rows" "c < cols" using "3.prems" idx_in_range by auto
  let ?B = "al + 1 + (rows * cols - idx - 1) * K"
  show ?case
  proof (cases "canPlace rows cols (grid st) r c d")
    case False
    then show ?thesis using "3.IH"(1) [OF False "3.prems"] by simp
  next
    case True
    let ?sp = "st\<lparr>grid := set_cell (grid st) r c (Some d),
                    countsLeft := bump (countsLeft st) d (- 1)\<rparr>"
    obtain x y where xy: "(x, y) = dfs rs rows cols al (idx + 1) ?sp" by (metis surj_pair)
    have ws: "well_shaped rows cols (grid ?sp)"
      using "3.prems" by (simp add: well_shaped_set_cell)
    have ok: "adj_ok rows cols (grid ?sp)"
      using "3.prems" rc True by (simp add: adj_ok_place)
    have post: "dfs_post rows cols (idx + 1) ?sp (x, y)"
      using dfs_place_structure(1) [OF ws ok, of "idx + 1" rs al] "3.prems" xy by simp
    have ihd: "attempts st < attempts y \<and> (al \<le> attempts st \<longrightarrow> attempts y = attempts st + 1) \<and>
               attempts y \<le> max al (attempts st) + 1 + (rows * cols - (idx + 1)) * K"
      using "3.IH"(2) [OF _ "3.prems"(1) ws ok] True "3.prems" xy [symmetric] by simp
    have by1: "attempts y \<le> max ?B (attempts st) + 1"
    proof (cases "al \<le> attempts st")
      case True
      then show ?thesis using ihd by simp
    next
      case False
      then have "max al (attempts st) = al" by simp
      then show ?thesis using ihd by simp
    qed
    from post obtain b where b: "x = Inr b" by (auto simp: dfs_post_def)
    show ?thesis
    proof (cases b)
      case bt: True
      have eq: "place rs rows cols al idx r c (d # ds) st = (Inr True, y)"
        using True xy [symmetric] b bt by simp
      show ?thesis unfolding eq using ihd by1 by simp
    next
      case bf: False
      let ?u = "y\<lparr>grid := set_cell (grid y) r c None, countsLeft := bump (countsLeft y) d 1\<rparr>"
      have eq: "place rs rows cols al idx r c (d # ds) st = place rs rows cols al idx r c ds ?u"
        using True xy [symmetric] b bf by simp
      have wsy: "well_shaped rows cols (grid y)" and oky: "adj_ok rows cols (grid y)"
        using post by (simp_all add: dfs_post_def)
      have wsu: "well_shaped rows cols (grid ?u)" using wsy by (simp add: well_shaped_set_cell)
      have oku: "adj_ok rows cols (grid ?u)" using wsy oky rc by (simp add: adj_ok_clear)
      have cly: "countsLeft y = bump (countsLeft st) d (- 1)"
        using post b bf by (simp add: dfs_post_def)
      have lenu: "length (countsLeft ?u) = K" using cly "3.prems"(7) by simp
      have bF: "b = False" using bf by simp
      have ihp: "attempts y \<le> attempts (snd (place rs rows cols al idx r c ds ?u)) \<and>
                 attempts (snd (place rs rows cols al idx r c ds ?u)) \<le> max ?B (attempts y) + length ds"
        using "3.IH"(3) [OF _ xy b bF "3.prems"(1) wsu oku "3.prems"(4) "3.prems"(5) "3.prems"(6) lenu] True
        by simp
      have "attempts st \<le> attempts (snd (place rs rows cols al idx r c ds ?u))"
        using ihp ihd by linarith
      moreover have "attempts (snd (place rs rows cols al idx r c ds ?u)) \<le> max ?B (attempts st) + length (d # ds)"
        using ihp by1 by (simp add: max_def split: if_splits)
      ultimately show ?thesis unfolding eq by blast
    qed
  qed
qed

lemma run_attempts_bound:
  assumes "permuting rs"
  shows "attempts_of (tryArrange_run rs rows cols m al rn) \<le> al + 1 + rows * cols * length m"
proof (cases "length (build_pool m) \<noteq> rows * cols")
  case True
  then show ?thesis by (simp add: tryArrange_run_unfold attempts_of_def)
next
  case False
  have "attempts (snd (dfs rs rows cols al 0 (start rows cols m rn)))
          \<le> max al (attempts (start rows cols m rn)) + 1 + (rows * cols - 0) * length m"
    using dfs_place_attempts(1) [OF assms, of rows cols "start rows cols m rn" 0 "length m" al]
    by (simp add: start_def well_shaped_empty_grid adj_ok_empty_grid)
  then show ?thesis using False by (simp add: tryArrange_run_unfold attempts_of_def start_def)
qed

lemma run_attempts_pos:
  assumes "permuting rs" and "length (build_pool m) = rows * cols"
  shows "\<exists>ok st. tryArrange_run rs rows cols m al rn = Searched ok st \<and> 1 \<le> attempts st"
proof -
  have "attempts (start rows cols m rn) < attempts (snd (dfs rs rows cols al 0 (start rows cols m rn)))"
    using dfs_place_attempts(1) [OF assms(1), of rows cols "start rows cols m rn" 0 "length m" al]
    by (simp add: start_def well_shaped_empty_grid adj_ok_empty_grid)
  then show ?thesis using assms(2) by (simp add: tryArrange_run_unfold)
qed

lemma tryArrange_cases:
  "tryArrange rs rows cols m al rn = Inr None \<or> (\<exists>g. tryArrange rs rows cols m al rn = Inr (Some g))"
proof (cases "tryArrange rs rows cols m al rn")
  case (Inl e)
  then show ?thesis using tryArrange_never_throws by blast
next
  case (Inr v)
  then show ?thesis by (cases v) simp_all
qed

lemma length_two: "length xs = 2 \<Longrightarrow> \<exists>x y. xs = [x, y]"
  by (cases xs; cases "tl xs") auto

lemma grid_2x2:
  assumes "well_shaped 2 2 g"
  shows "\<exists>a b c d. g = [[a, b], [c, d]]"
proof -
  from assms have "length g = 2" by (simp add: well_shaped_def)
  then obtain r1 r2 where g: "g = [r1, r2]" using length_two by blast
  then have "length r1 = 2" "length r2 = 2" using assms by (simp_all add: well_shaped_def)
  then obtain a b c d where "r1 = [a, b]" "r2 = [c, d]" using length_two by blast
  then show ?thesis using g by simp
qed

lemma infeasible_2x2:
  assumes "permuting rs"
  shows "tryArrange rs 2 2 [(''A'', 3), (''B'', 1)] al rn = Inr None"
proof (rule ccontr)
  assume "tryArrange rs 2 2 [(''A'', 3), (''B'', 1)] al rn \<noteq> Inr None"
  then obtain g where s: "tryArrange rs 2 2 [(''A'', 3), (''B'', 1)] al rn = Inr (Some g)"
    using tryArrange_cases by blast
  obtain a b c d where g: "g = [[a, b], [c, d]]"
    using grid_2x2 [OF solved_grid(1) [OF s]] by blast
  have cnt: "int (count_list (concat g) (Some ''A'')) = 3"
    using solved_counts [OF assms _ s, of "''A''"] by (simp add: count_of_def)
  have "g ! 0 ! 0 \<noteq> g ! 0 ! 1" "g ! 0 ! 0 \<noteq> g ! 1 ! 0" "g ! 0 ! 1 \<noteq> g ! 1 ! 1" "g ! 1 ! 0 \<noteq> g ! 1 ! 1"
    using solved_adjacent [OF s] by (simp_all add: adjacent_def)
  then have "a \<noteq> b" "a \<noteq> c" "b \<noteq> d" "c \<noteq> d" using g by simp_all
  then show False using cnt g by (auto split: if_splits)
qed

lemma count_of_nonneg:
  "(\<forall>p\<in>set m. 0 \<le> snd p) \<Longrightarrow> 0 \<le> count_of m d"
  by (auto simp: count_of_def split: option.splits dest!: map_of_SomeD)

lemma remaining_positive_part:
  "int (remaining m) = sum_list (map snd (filter (\<lambda>p. 0 < snd p) m))"
  by (induction m) (auto simp: remaining_def)

lemma permuting_rev: "permuting (\<lambda>rn xs. (rev xs, rn))"
  by (simp add: permuting_def)

subsection \<open>Evaluation on concrete inputs\<close>

lemma replicate_numeral: "replicate (numeral k) x = x # replicate (pred_numeral k) x"
  by (simp add: numeral_eq_Suc)

lemma list_update_numeral: "(x # xs)[numeral k := y] = x # xs[pred_numeral k := y]"
  by (simp add: numeral_eq_Suc)

lemma snd_shuffle_from: "snd (shuffle_from i a rn) = (\<lambda>n. rn (n + i))"
  by (induction i arbitrary: a rn) (simp_all add: Let_def rest_def)

lemma snd_shuffle: "snd (shuffle a rn) = (\<lambda>n. rn (n + (length a - 1)))"
  by (simp add: shuffle_def snd_shuffle_from)

lemmas run_simps =
  replicate_numeral list_update_numeral
  tryArrange_def tryArrange_run_unfold start_def snd_shuffle build_pool_def object_keys_def
  count_of_def candidates_def reorder_def canPlace_def neighbors_def set_cell_def bump_def
  rest_def dfs_unfold

lemmas run_congs =
  prod.case_cong_weak sum.case_cong_weak bool.case_cong_weak option.case_cong_weak
  run.case_cong_weak

subsection \<open>The 1 by 4 instance\<close>

lemma place_hit:
  "canPlace rows cols (grid st) r c d \<Longrightarrow> j = idx + 1 \<Longrightarrow>
   fst (dfs rs rows cols al j
          (st\<lparr>grid := set_cell (grid st) r c (Some d), countsLeft := bump (countsLeft st) d (- 1)\<rparr>))
     = Inr True \<Longrightarrow>
   place rs rows cols al idx r c (d # ds) st =
     (Inr True, snd (dfs rs rows cols al j
          (st\<lparr>grid := set_cell (grid st) r c (Some d), countsLeft := bump (countsLeft st) d (- 1)\<rparr>)))"
  by (simp add: case_prod_beta)

lemma place_skip:
  "\<not> canPlace rows cols (grid st) r c d \<Longrightarrow>
   place rs rows cols al idx r c (d # ds) st = place rs rows cols al idx r c ds st"
  by simp

lemma mset_two: "mset ys = mset [a, b] \<Longrightarrow> ys = [a, b] \<or> ys = [b, a]"
proof -
  assume m: "mset ys = mset [a, b]"
  then have "length ys = 2" using mset_eq_length by fastforce
  then obtain p q where ys: "ys = [p, q]"
    by (cases ys; cases "tl ys") auto
  then show ?thesis using m by (auto simp: add_eq_conv_ex)
qed

lemma reorder_two:
  "permuting rs \<Longrightarrow> fst (reorder rs [a, b] rn) = [a, b] \<or> fst (reorder rs [a, b] rn) = [b, a]"
  by (rule mset_two) (simp add: reorder_def permuting_def)

lemma row4_step3:
  assumes "two_colours x y" and "grid st = [[Some x, Some y, Some x, None]]"
    and "countsLeft st = [(''A'', if x = ''A'' then 0 else 1), (''B'', if x = ''A'' then 1 else 0)]"
    and "attempts st < 200"
  shows "fst (dfs rs 1 4 20000 3 st) = Inr True \<and>
         grid (snd (dfs rs 1 4 20000 3 st)) = [[Some x, Some y, Some x, Some y]]"
  using assms
  by (auto simp: two_colours_def dfs_unfold candidates_def object_keys_def count_of_def
      reorder_def canPlace_def neighbors_def set_cell_def bump_def)

lemmas row4_simps =
  two_colours_def candidates_def object_keys_def count_of_def canPlace_def neighbors_def
  set_cell_def bump_def

lemma row4_place2:
  assumes t: "two_colours x y" and g: "grid st = [[Some x, Some y, None, None]]"
    and cl: "countsLeft st = [(''A'', 1), (''B'', 1)]" and a: "attempts st < 200"
    and cs: "cs = [x, y] \<or> cs = [y, x]"
  shows "fst (place rs 1 4 20000 2 0 2 cs st) = Inr True \<and>
         grid (snd (place rs 1 4 20000 2 0 2 cs st)) = [[Some x, Some y, Some x, Some y]]"
proof -
  let ?sp = "st\<lparr>grid := set_cell (grid st) 0 2 (Some x), countsLeft := bump (countsLeft st) x (- 1)\<rparr>"
  have cp: "canPlace 1 4 (grid st) 0 2 x" and ncp: "\<not> canPlace 1 4 (grid st) 0 2 y"
    using t g by (auto simp: row4_simps)
  have nx: "fst (dfs rs 1 4 20000 3 ?sp) = Inr True \<and>
            grid (snd (dfs rs 1 4 20000 3 ?sp)) = [[Some x, Some y, Some x, Some y]]"
    by (rule row4_step3 [OF t]) (use t g cl a in \<open>auto simp: row4_simps\<close>)
  have hit: "place rs 1 4 20000 2 0 2 (x # ds) st = (Inr True, snd (dfs rs 1 4 20000 3 ?sp))" for ds
    by (rule place_hit [OF cp _ conjunct1 [OF nx]]) simp
  show ?thesis
    using cs hit [of "[y]"] hit [of "[]"] nx place_skip [OF ncp, of rs 20000 2 "[x]"] by auto
qed

lemma row4_step2:
  assumes p: "permuting rs" and t: "two_colours x y" and g: "grid st = [[Some x, Some y, None, None]]"
    and cl: "countsLeft st = [(''A'', 1), (''B'', 1)]" and a: "attempts st < 199"
  shows "fst (dfs rs 1 4 20000 2 st) = Inr True \<and>
         grid (snd (dfs rs 1 4 20000 2 st)) = [[Some x, Some y, Some x, Some y]]"
proof -
  let ?R = "reorder rs [''A'', ''B''] (draws st)"
  let ?st = "st\<lparr>attempts := attempts st + 1, draws := snd ?R\<rparr>"
  have c: "candidates (countsLeft st) = [''A'', ''B'']" using cl by (simp add: row4_simps)
  have eq: "dfs rs 1 4 20000 2 st = place rs 1 4 20000 2 0 2 (fst ?R) ?st"
    using a c by (simp add: dfs_unfold)
  have "fst ?R = [x, y] \<or> fst ?R = [y, x]"
    using reorder_two [OF p, of "''A''" "''B''" "draws st"] t by (auto simp: two_colours_def)
  then show ?thesis
    unfolding eq by (intro row4_place2 [OF t]) (use g cl a in simp_all)
qed

lemma row4_place1:
  assumes p: "permuting rs" and t: "two_colours x y" and g: "grid st = [[Some x, None, None, None]]"
    and cl: "countsLeft st = [(''A'', if x = ''A'' then 1 else 2), (''B'', if x = ''A'' then 2 else 1)]"
    and a: "attempts st < 199"
    and cs: "cs = [x, y] \<or> cs = [y, x]"
  shows "fst (place rs 1 4 20000 1 0 1 cs st) = Inr True \<and>
         grid (snd (place rs 1 4 20000 1 0 1 cs st)) = [[Some x, Some y, Some x, Some y]]"
proof -
  let ?sp = "st\<lparr>grid := set_cell (grid st) 0 1 (Some y), countsLeft := bump (countsLeft st) y (- 1)\<rparr>"
  have cp: "canPlace 1 4 (grid st) 0 1 y" and ncp: "\<not> canPlace 1 4 (grid st) 0 1 x"
    using t g by (auto simp: row4_simps)
  have nx: "fst (dfs rs 1 4 20000 2 ?sp) = Inr True \<and>
            grid (snd (dfs rs 1 4 20000 2 ?sp)) = [[Some x, Some y, Some x, Some y]]"
    by (rule row4_step2 [OF p t]) (use t g cl a in \<open>auto simp: row4_simps\<close>)
  have hit: "place rs 1 4 20000 1 0 1 (y # ds) st = (Inr True, snd (dfs rs 1 4 20000 2 ?sp))" for ds
    by (rule place_hit [OF cp _ conjunct1 [OF nx]]) simp
  show ?thesis
    using cs hit [of "[x]"] hit [of "[]"] nx place_skip [OF ncp, of rs 20000 1 "[y]"] by auto
qed

lemma row4_step1:
  assumes p: "permuting rs" and t: "two_colours x y" and g: "grid st = [[Some x, None, None, None]]"
    and cl: "countsLeft st = [(''A'', if x = ''A'' then 1 else 2), (''B'', if x = ''A'' then 2 else 1)]"
    and a: "attempts st < 198"
  shows "fst (dfs rs 1 4 20000 1 st) = Inr True \<and>
         grid (snd (dfs rs 1 4 20000 1 st)) = [[Some x, Some y, Some x, Some y]]"
proof -
  let ?R = "reorder rs [y, x] (draws st)"
  let ?st = "st\<lparr>attempts := attempts st + 1, draws := snd ?R\<rparr>"
  have c: "candidates (countsLeft st) = [y, x]" using cl t by (auto simp: row4_simps)
  have eq: "dfs rs 1 4 20000 1 st = place rs 1 4 20000 1 0 1 (fst ?R) ?st"
    using a c by (simp add: dfs_unfold)
  have "fst ?R = [x, y] \<or> fst ?R = [y, x]"
    using reorder_two [OF p, of y x "draws st"] by auto
  then show ?thesis
    unfolding eq by (intro row4_place1 [OF p t]) (use g cl a in simp_all)
qed

lemma row4_place0:
  assumes p: "permuting rs" and t: "two_colours x y" and g: "grid st = [[None, None, None, None]]"
    and cl: "countsLeft st = [(''A'', 2), (''B'', 2)]" and a: "attempts st < 198"
  shows "fst (place rs 1 4 20000 0 0 0 [x, y] st) = Inr True \<and>
         grid (snd (place rs 1 4 20000 0 0 0 [x, y] st)) = [[Some x, Some y, Some x, Some y]]"
proof -
  let ?sp = "st\<lparr>grid := set_cell (grid st) 0 0 (Some x), countsLeft := bump (countsLeft st) x (- 1)\<rparr>"
  have cp: "canPlace 1 4 (grid st) 0 0 x"
    using t g by (auto simp: row4_simps)
  have nx: "fst (dfs rs 1 4 20000 1 ?sp) = Inr True \<and>
            grid (snd (dfs rs 1 4 20000 1 ?sp)) = [[Some x, Some y, Some x, Some y]]"
    by (rule row4_step1 [OF p t]) (use t g cl a in \<open>auto simp: row4_simps\<close>)
  have "place rs 1 4 20000 0 0 0 [x, y] st = (Inr True, snd (dfs rs 1 4 20000 1 ?sp))"
    by (rule place_hit [OF cp _ conjunct1 [OF nx]]) simp
  then show ?thesis using nx by simp
qed

lemma row4_step0:
  assumes p: "permuting rs" and g: "grid st = [[None, None, None, None]]"
    and cl: "countsLeft st = [(''A'', 2), (''B'', 2)]" and a: "attempts st < 197"
  shows "fst (dfs rs 1 4 20000 0 st) = Inr True \<and>
         (grid (snd (dfs rs 1 4 20000 0 st)) = [[Some ''A'', Some ''B'', Some ''A'', Some ''B'']] \<or>
          grid (snd (dfs rs 1 4 20000 0 st)) = [[Some ''B'', Some ''A'', Some ''B'', Some ''A'']])"
proof -
  let ?R = "reorder rs [''A'', ''B''] (draws st)"
  let ?st = "st\<lparr>attempts := attempts st + 1, draws := snd ?R\<rparr>"
  have c: "candidates (countsLeft st) = [''A'', ''B'']" using cl by (simp add: row4_simps)
  have eq: "dfs rs 1 4 20000 0 st = place rs 1 4 20000 0 0 0 (fst ?R) ?st"
    using a c by (simp add: dfs_unfold)
  have ab: "two_colours ''A'' ''B''" and ba: "two_colours ''B'' ''A''"
    by (simp_all add: two_colours_def)
  have st: "grid ?st = [[None, None, None, None]]" "countsLeft ?st = [(''A'', 2), (''B'', 2)]"
    "attempts ?st < 198"
    using g cl a by simp_all
  consider "fst ?R = [''A'', ''B'']" | "fst ?R = [''B'', ''A'']"
    using reorder_two [OF p, of "''A''" "''B''" "draws st"] by blast
  then show ?thesis
  proof cases
    case 1
    then show ?thesis unfolding eq using row4_place0 [OF p ab st, of] by simp
  next
    case 2
    then show ?thesis unfolding eq using row4_place0 [OF p ba st] by simp
  qed
qed

lemma row4_solved:
  assumes "permuting rs"
  shows "tryArrange rs 1 4 [(''A'', 2), (''B'', 2)] 20000 rn
           = Inr (Some [[Some ''A'', Some ''B'', Some ''A'', Some ''B'']]) \<or>
         tryArrange rs 1 4 [(''A'', 2), (''B'', 2)] 20000 rn
           = Inr (Some [[Some ''B'', Some ''A'', Some ''B'', Some ''A'']])"
proof -
  let ?st = "start 1 4 [(''A'', 2), (''B'', 2)] rn"
  have len: "length (build_pool [(''A'', 2), (''B'', 2)]) = 1 * 4"
    by (simp add: build_pool_def object_keys_def count_of_def)
  have "fst (dfs rs 1 4 20000 0 ?st) = Inr True \<and>
         (grid (snd (dfs rs 1 4 20000 0 ?st)) = [[Some ''A'', Some ''B'', Some ''A'', Some ''B'']] \<or>
          grid (snd (dfs rs 1 4 20000 0 ?st)) = [[Some ''B'', Some ''A'', Some ''B'', Some ''A'']])"
    by (rule row4_step0 [OF assms]) (simp_all add: start_def replicate_numeral)
  then show ?thesis
    using len by (auto simp: tryArrange_def tryArrange_run_unfold)
qed

subsection \<open>Identifiers\<close>

declare digits.simps [simp del]

lemma below_ten: "k < 10 \<Longrightarrow> k \<in> {0, 1, 2, 3, 4, 5, 6, 7, 8, 9::nat}"
  by auto

lemma digit_val_digit_char: "k < 10 \<Longrightarrow> digit_val (digit_char k) = k"
  using below_ten [of k] by (auto simp: digit_val_def digit_char_def)

lemma digit_char_not_dash: "k < 10 \<Longrightarrow> digit_char k \<noteq> CHR ''-''"
  using below_ten [of k] by (auto simp: digit_char_def)

lemma str_val_snoc: "str_val (s @ [ch]) = 10 * str_val s + digit_val ch"
  by (simp add: str_val_def)

lemma str_val_digits: "str_val (digits n) = n"
proof (induction n rule: digits.induct)
  case (1 n)
  show ?case
  proof (cases "n < 10")
    case True
    then show ?thesis
      by (subst digits.simps) (simp add: str_val_def digit_val_digit_char)
  next
    case False
    then have "str_val (digits n) = 10 * str_val (digits (n div 10)) + digit_val (digit_char (n mod 10))"
      by (subst digits.simps) (simp add: str_val_snoc)
    then show ?thesis using 1 False by (simp add: digit_val_digit_char)
  qed
qed

lemma no_dash_digits: "CHR ''-'' \<notin> set (digits n)"
proof (induction n rule: digits.induct)
  case (1 n)
  show ?case
  proof (cases "n < 10")
    case True
    then show ?thesis
      using digit_char_not_dash [of n] by (subst digits.simps) auto
  next
    case False
    then show ?thesis
      using 1 digit_char_not_dash [of "n mod 10"] by (subst digits.simps) auto
  qed
qed

lemma str_val_zeros: "str_val (replicate k (CHR ''0'') @ s) = str_val s"
proof -
  have "foldl (\<lambda>a ch. 10 * a + digit_val ch) 0 (replicate k (CHR ''0'')) = 0"
    by (induction k) (simp_all add: digit_val_def)
  then show ?thesis by (simp add: str_val_def)
qed

lemma str_val_pad: "str_val (padStart 3 (CHR ''0'') (digits n)) = n"
  by (simp add: padStart_def str_val_zeros str_val_digits)

lemma no_dash_pad: "CHR ''-'' \<notin> set (padStart 3 (CHR ''0'') (digits n))"
  using no_dash_digits [of n] by (auto simp: padStart_def)

lemma takeWhile_upto: "a \<notin> set zs \<Longrightarrow> takeWhile (\<lambda>x. x \<noteq> a) (zs @ a # ws) = zs"
  by (induction zs) auto

lemma split_at_last:
  assumes "xs @ a # ys = xs' @ a # ys'" and "a \<notin> set ys" and "a \<notin> set ys'"
  shows "xs = xs' \<and> ys = ys'"
proof -
  have "rev ys @ a # rev xs = rev ys' @ a # rev xs'"
    using arg_cong [OF assms(1), of rev] by simp
  then have "takeWhile (\<lambda>x. x \<noteq> a) (rev ys @ a # rev xs) = takeWhile (\<lambda>x. x \<noteq> a) (rev ys' @ a # rev xs')"
    by simp
  then have "rev ys = rev ys'"
    using assms(2,3) by (simp add: takeWhile_upto)
  then show ?thesis using assms(1) by simp
qed

lemma ident_inj: "ident d n = ident d' n' \<Longrightarrow> d = d' \<and> n = n'"
proof -
  assume e: "ident d n = ident d' n'"
  then have "d = d' \<and> padStart 3 (CHR ''0'') (digits n) = padStart 3 (CHR ''0'') (digits n')"
    unfolding ident_def using split_at_last [OF _ no_dash_pad no_dash_pad] by simp
  then show ?thesis using str_val_pad by metis
qed

subsection \<open>The labelling loops\<close>

lemma nested_fold_cells:
  "fold (\<lambda>r. fold (f r) [0..<cols]) [0..<rows] = fold (\<lambda>(r, c). f r c) (cells rows cols)"
proof (induction rows)
  case 0
  then show ?case by (simp add: cells_def)
next
  case (Suc rows)
  then show ?case by (simp add: cells_Suc fold_map comp_def)
qed

lemma partial_result_0: "partial_result rows cols vs 0 = replicate rows (replicate cols None)"
  by (simp add: partial_result_def map_replicate_const)

lemma partial_result_Suc:
  assumes k: "k < rows * cols"
  shows "(partial_result rows cols vs k)
           [k div cols := (partial_result rows cols vs k ! (k div cols))[k mod cols := Some (seat_of vs k)]]
         = partial_result rows cols vs (Suc k)"
proof -
  have rc: "k div cols < rows" "k mod cols < cols" using idx_in_range [OF k] by simp_all
  have cpos: "0 < cols" using rc by simp
  have key: "(r * cols + c < Suc k) = (r * cols + c < k \<or> (r = k div cols \<and> c = k mod cols))"
    if "c < cols" for r c
  proof -
    have "(r * cols + c = k) = (r = k div cols \<and> c = k mod cols)"
      using that cpos by (metis div_mult_self3 div_less add.commute add_0 mod_mult_self3 mod_less
          div_mult_mod_eq mult.commute nat_neq_iff)
    then show ?thesis by auto
  qed
  show ?thesis
  proof (rule nth_equalityI)
    show "length ((partial_result rows cols vs k)
           [k div cols := (partial_result rows cols vs k ! (k div cols))[k mod cols := Some (seat_of vs k)]])
          = length (partial_result rows cols vs (Suc k))"
      by (simp add: partial_result_def)
  next
    fix r
    assume "r < length ((partial_result rows cols vs k)
           [k div cols := (partial_result rows cols vs k ! (k div cols))[k mod cols := Some (seat_of vs k)]])"
    then have r: "r < rows" by (simp add: partial_result_def)
    show "(partial_result rows cols vs k)
           [k div cols := (partial_result rows cols vs k ! (k div cols))[k mod cols := Some (seat_of vs k)]] ! r
          = partial_result rows cols vs (Suc k) ! r"
    proof (rule nth_equalityI)
      show "length ((partial_result rows cols vs k)
           [k div cols := (partial_result rows cols vs k ! (k div cols))[k mod cols := Some (seat_of vs k)]] ! r)
            = length (partial_result rows cols vs (Suc k) ! r)"
        using r rc by (simp add: partial_result_def nth_list_update)
    next
      fix c
      assume "c < length ((partial_result rows cols vs k)
           [k div cols := (partial_result rows cols vs k ! (k div cols))[k mod cols := Some (seat_of vs k)]] ! r)"
      then have c: "c < cols" using r rc by (simp add: partial_result_def nth_list_update split: if_splits)
      have eqk: "k div cols * cols + k mod cols = k" by simp
      show "(partial_result rows cols vs k)
           [k div cols := (partial_result rows cols vs k ! (k div cols))[k mod cols := Some (seat_of vs k)]] ! r ! c
            = partial_result rows cols vs (Suc k) ! r ! c"
        using r c rc key [OF c, of r] eqk
        by (auto simp: partial_result_def nth_list_update)
    qed
  qed
qed

lemma length_cell_vals [simp]: "length (cell_vals g rows cols) = rows * cols"
  by (simp add: cell_vals_def)

lemma cell_vals_nth: "k < rows * cols \<Longrightarrow> cell_vals g rows cols ! k = read_cell g (k div cols) (k mod cols)"
  by (simp add: cell_vals_def)

lemma read_after_proto: "read_after ''__proto__'' n = PObjectPrototype"
  by (induction n) (simp_all add: get_prop_def)

lemma get_prop_own_names:
  assumes "key \<notin> set inherited_names"
  shows "get_prop Map.empty key = PUndefined"
proof -
  have "key \<noteq> ''__proto__''" and "key \<notin> fst ` set object_prototype"
    using assms by (simp_all add: inherited_names_def)
  then have "key \<noteq> ''__proto__''" and "map_of object_prototype key = None"
    by (simp_all add: map_of_eq_None_iff)
  then show ?thesis by (simp add: get_prop_def)
qed

lemma read_after_own_names:
  assumes "key \<notin> set inherited_names"
  shows "read_after key (Suc n) = PNumber (Suc n)"
proof (induction n)
  case 0
  have "key \<noteq> ''__proto__''" using assms by (simp add: inherited_names_def)
  then show ?case using get_prop_own_names [OF assms] by (simp add: incremented_def)
next
  case (Suc n)
  have "key \<noteq> ''__proto__''" using assms by (simp add: inherited_names_def)
  then show ?case using Suc by (simp add: incremented_def)
qed

lemma get_prop_tally:
  "get_prop (tally vs) key = read_after key (count_list (map to_string vs) key)"
  by (simp add: tally_def get_prop_def read_after_proto)

lemma tally_step:
  assumes "k < length vs"
  shows "set_prop (tally (take k vs)) (to_string (vs ! k))
           (incremented (get_prop (tally (take k vs)) (to_string (vs ! k))))
         = tally (take (Suc k) vs)"
proof -
  have t: "take (Suc k) vs = take k vs @ [vs ! k]"
    using assms by (simp add: take_Suc_conv_app_nth)
  show ?thesis
    unfolding get_prop_tally t
    by (auto simp: set_prop_def tally_def fun_eq_iff)
qed

lemma label_cell_step:
  assumes k: "k < rows * cols"
  shows "label_cell g (k div cols) (k mod cols)
           (tally (take k (cell_vals g rows cols)), partial_result rows cols (cell_vals g rows cols) k)
         = (tally (take (Suc k) (cell_vals g rows cols)),
            partial_result rows cols (cell_vals g rows cols) (Suc k))"
proof -
  let ?vs = "cell_vals g rows cols"
  have v: "read_cell g (k div cols) (k mod cols) = ?vs ! k" using k by (simp add: cell_vals_nth)
  have kl: "k < length ?vs" using k by simp
  show ?thesis
    unfolding label_cell_def v
    using tally_step [OF kl] partial_result_Suc [OF k, of ?vs]
    by (simp add: Let_def seat_of_def get_prop_tally)
qed

lemma label_cells_prefix:
  "k \<le> rows * cols \<Longrightarrow>
   fold (\<lambda>(r, c). label_cell g r c) (take k (cells rows cols))
     (tally [], partial_result rows cols (cell_vals g rows cols) 0)
   = (tally (take k (cell_vals g rows cols)), partial_result rows cols (cell_vals g rows cols) k)"
proof (induction k)
  case 0
  then show ?case by simp
next
  case (Suc k)
  then have k: "k < rows * cols" by simp
  have "take (Suc k) (cells rows cols) = take k (cells rows cols) @ [(k div cols, k mod cols)]"
    using k by (simp add: take_Suc_conv_app_nth cells_nth)
  then show ?case using Suc.IH k label_cell_step [OF k, of g] by simp
qed

lemma tally_Nil: "tally [] = Map.empty"
  by (simp add: tally_def)

lemma assignRollsToGrid_eq:
  assumes "g \<noteq> []"
  shows "assignRollsToGrid g =
           Inr (partial_result (length g) (length (hd g)) (cell_vals g (length g) (length (hd g)))
                  (length g * length (hd g)))"
proof -
  obtain row0 rest where g: "g = row0 # rest" using assms by (cases g) auto
  let ?rows = "length g" and ?cols = "length (hd g)"
  have "fold (\<lambda>r. fold (label_cell g r) [0..<?cols]) [0..<?rows]
          (Map.empty, replicate ?rows (replicate ?cols None))
        = (tally (take (?rows * ?cols) (cell_vals g ?rows ?cols)),
           partial_result ?rows ?cols (cell_vals g ?rows ?cols) (?rows * ?cols))"
    using label_cells_prefix [of "?rows * ?cols" ?rows ?cols g]
    by (simp add: nested_fold_cells tally_Nil partial_result_0)
  then show ?thesis
    using g by (simp add: assignRollsToGrid_def Let_def)
qed

lemma cell_vals_well_shaped:
  assumes "well_shaped rows cols g"
  shows "cell_vals g rows cols = map js_of (concat g)"
proof -
  have "read_cell g (i div cols) (i mod cols) = js_of (cell_at cols g i)" if "i < rows * cols" for i
  proof -
    have "i div cols < rows" "i mod cols < cols" using idx_in_range [OF that] by simp_all
    then have "i mod cols < length (g ! (i div cols))" using assms by (simp add: well_shaped_def)
    then show ?thesis by (simp add: read_cell_def js_of_def cell_at_def)
  qed
  then show ?thesis
    unfolding cell_vals_def concat_cell_at [OF assms] by simp
qed

lemma count_list_the:
  "None \<notin> set xs \<Longrightarrow> count_list (map (\<lambda>x. to_string (js_of x)) xs) d = count_list xs (Some d)"
  by (induction xs) (auto simp: js_of_def to_string_def split: option.splits)

lemma count_list_take_mono:
  "a \<le> b \<Longrightarrow> count_list (take a xs) d \<le> count_list (take b xs) d"
proof -
  assume "a \<le> b"
  then have "take b xs = take a xs @ take (b - a) (drop a xs)"
    by (metis le_add_diff_inverse take_add)
  then show ?thesis by simp
qed

lemma count_list_take_less:
  assumes "i < j" "j < length xs" "xs ! j = d"
  shows "count_list (take (Suc i) xs) d < count_list (take (Suc j) xs) d"
proof -
  have "count_list (take (Suc i) xs) d \<le> count_list (take j xs) d"
    using assms(1) by (intro count_list_take_mono) simp
  moreover have "count_list (take (Suc j) xs) d = count_list (take j xs) d + 1"
    using assms(2,3) by (simp add: take_Suc_conv_app_nth)
  ultimately show ?thesis by simp
qed

lemma occurrence_numbers:
  "(\<exists>i<length xs. xs ! i = d \<and> count_list (take (Suc i) xs) d = k) = (1 \<le> k \<and> k \<le> count_list xs d)"
proof (induction xs rule: rev_induct)
  case Nil
  then show ?case by auto
next
  case (snoc y xs)
  have old: "(xs @ [y]) ! i = xs ! i \<and> take (Suc i) (xs @ [y]) = take (Suc i) xs" if "i < length xs" for i
    using that by (simp add: nth_append)
  have "(\<exists>i<length (xs @ [y]). (xs @ [y]) ! i = d \<and> count_list (take (Suc i) (xs @ [y])) d = k)
        = ((\<exists>i<length xs. xs ! i = d \<and> count_list (take (Suc i) xs) d = k) \<or>
           (y = d \<and> count_list (xs @ [y]) d = k))"
    (is "?L = (?A \<or> ?B)")
  proof
    assume ?L
    then obtain i where i: "i < length (xs @ [y])" "(xs @ [y]) ! i = d"
      "count_list (take (Suc i) (xs @ [y])) d = k" by blast
    show "?A \<or> ?B"
    proof (cases "i < length xs")
      case True
      then show ?thesis using i old [OF True] by auto
    next
      case False
      then have "i = length xs" using i(1) by simp
      then show ?thesis using i by simp
    qed
  next
    assume "?A \<or> ?B"
    then show ?L
    proof
      assume ?A
      then obtain i where "i < length xs" "xs ! i = d" "count_list (take (Suc i) xs) d = k" by blast
      then show ?L using old [of i] by (intro exI [of _ i]) simp
    next
      assume ?B
      then show ?L by (intro exI [of _ "length xs"]) auto
    qed
  qed
  then show ?case using snoc.IH by auto
qed

lemma well_shaped_partial_result: "well_shaped rows cols (partial_result rows cols vs k)"
  by (auto simp: well_shaped_def partial_result_def)

lemma cell_at_partial_result:
  assumes "i < rows * cols"
  shows "cell_at cols (partial_result rows cols vs (rows * cols)) i = Some (seat_of vs i)"
proof -
  have "i div cols < rows" "i mod cols < cols" using idx_in_range [OF assms] by simp_all
  then show ?thesis using assms by (simp add: cell_at_def partial_result_def)
qed

lemma concat_partial_result:
  "concat (partial_result rows cols vs (rows * cols)) = map (\<lambda>i. Some (seat_of vs i)) [0..<rows * cols]"
  unfolding concat_cell_at [OF well_shaped_partial_result]
  by (simp add: cell_at_partial_result)

lemma concat_result:
  "length xs = rows * cols \<Longrightarrow>
   concat (partial_result rows cols vs (rows * cols)) = map (\<lambda>i. Some (seat_of vs i)) [0..<length xs]"
  by (simp add: concat_partial_result)

lemma solved_shape:
  assumes "solved cols g"
  shows "well_shaped (length g) cols g" and "length (hd g) = cols" and "None \<notin> set (concat g)"
    and "length (concat g) = length g * cols"
proof -
  show ws: "well_shaped (length g) cols g"
    using assms by (auto simp: solved_def well_shaped_def list_all_iff)
  show "length (hd g) = cols"
    using assms by (cases g) (auto simp: solved_def)
  show "None \<notin> set (concat g)"
    using assms by (auto simp: solved_def list_all_iff)
  show "length (concat g) = length g * cols"
    unfolding concat_cell_at [OF ws] by simp
qed

lemma count_list_take_Suc:
  "i < length xs \<Longrightarrow> xs ! i = d \<Longrightarrow> count_list (take (Suc i) xs) d = Suc (count_list (take i xs) d)"
  by (simp add: take_Suc_conv_app_nth)

lemma own_namesD: "own_names g \<Longrightarrow> Some d \<in> set (concat g) \<Longrightarrow> d \<notin> set inherited_names"
  by (auto simp: own_names_def list_all_iff)

lemma solved_seat:
  assumes s: "solved cols g" and nm: "own_names g"
    and i: "i < length g * cols" and d: "concat g ! i = Some d"
  shows "seat_of (cell_vals g (length g) cols) i =
           \<lparr>dept = Str d, roll = ident d (count_list (take (Suc i) (concat g)) (Some d))\<rparr>"
proof -
  note sh = solved_shape [OF s]
  have vs: "cell_vals g (length g) cols = map js_of (concat g)"
    by (rule cell_vals_well_shaped [OF sh(1)])
  have il: "i < length (concat g)" using i sh(4) by simp
  have v: "map js_of (concat g) ! i = Str d" using il d by (simp add: js_of_def)
  have "None \<notin> set (take (Suc i) (concat g))" using sh(3) by (meson in_set_takeD)
  then have c: "count_list (map to_string (take (Suc i) (map js_of (concat g)))) d
                = count_list (take (Suc i) (concat g)) (Some d)"
    using count_list_the [of "take (Suc i) (concat g)" d] by (simp add: take_map comp_def)
  have "Some d \<in> set (concat g)" using il d by (metis nth_mem)
  then have own: "d \<notin> set inherited_names" by (rule own_namesD [OF nm])
  obtain m where m: "count_list (take (Suc i) (concat g)) (Some d) = Suc m"
    using count_list_take_Suc [OF il d] by blast
  show ?thesis
    unfolding vs seat_of_def v using c m read_after_own_names [OF own, of m]
    by (simp add: to_string_def ident_def prop_string_def)
qed

lemma solved_result:
  assumes s: "solved cols g"
  shows "assignRollsToGrid g =
           Inr (partial_result (length g) cols (cell_vals g (length g) cols) (length g * cols))"
  using assignRollsToGrid_eq [of g] s solved_shape(2) [OF s] by (simp add: solved_def)

lemma solved_rolls:
  assumes s: "solved cols g" and nm: "own_names g"
  shows "map (\<lambda>x. roll (the x)) (concat (partial_result (length g) cols (cell_vals g (length g) cols) (length g * cols)))
         = map (\<lambda>i. ident (the (concat g ! i)) (count_list (take (Suc i) (concat g)) (concat g ! i)))
             [0..<length (concat g)]"
proof -
  note sh = solved_shape [OF s]
  have "roll (seat_of (cell_vals g (length g) cols) i)
        = ident (the (concat g ! i)) (count_list (take (Suc i) (concat g)) (concat g ! i))"
    if "i < length (concat g)" for i
  proof -
    have "concat g ! i \<noteq> None" using sh(3) that by (metis nth_mem)
    then obtain d where d: "concat g ! i = Some d" by auto
    show ?thesis using solved_seat [OF s nm _ d] that sh(4) d by simp
  qed
  then show ?thesis
    unfolding concat_result [OF sh(4)] by (simp add: comp_def)
qed

lemma solved_distinct:
  assumes s: "solved cols g"
  shows "distinct (map (\<lambda>i. ident (the (concat g ! i)) (count_list (take (Suc i) (concat g)) (concat g ! i)))
             [0..<length (concat g)])"
proof -
  note sh = solved_shape [OF s]
  let ?xs = "concat g"
  let ?f = "\<lambda>i. ident (the (?xs ! i)) (count_list (take (Suc i) ?xs) (?xs ! i))"
  have some: "\<exists>d. ?xs ! i = Some d" if "i < length ?xs" for i
    using sh(3) that by (metis nth_mem option.exhaust)
  have ne: "?f i \<noteq> ?f j" if ij: "i < j" "j < length ?xs" for i j
  proof
    assume e: "?f i = ?f j"
    obtain d where di: "?xs ! i = Some d" using some [of i] ij by auto
    obtain d' where dj: "?xs ! j = Some d'" using some [of j] ij by auto
    have dd: "d = d'" and c: "count_list (take (Suc i) ?xs) (Some d) = count_list (take (Suc j) ?xs) (Some d')"
      using ident_inj [OF e [unfolded di dj option.sel]] by blast+
    show False using count_list_take_less [OF ij(1) ij(2) dj] c dd by simp
  qed
  have "inj_on ?f {0..<length ?xs}"
  proof (rule inj_onI)
    fix i j assume "i \<in> {0..<length ?xs}" "j \<in> {0..<length ?xs}" "?f i = ?f j"
    then show "i = j" using ne [of i j] ne [of j i] by (cases i j rule: linorder_cases) auto
  qed
  then show ?thesis by (simp add: distinct_map)
qed

lemma solved_contiguous:
  assumes s: "solved cols g" and nm: "own_names g"
  shows "{roll (the x) | x. x \<in> set (concat (partial_result (length g) cols (cell_vals g (length g) cols) (length g * cols)))
             \<and> dept (the x) = Str d}
         = {ident d k | k. 1 \<le> k \<and> k \<le> count_list (concat g) (Some d)}"
    (is "?L = ?R")
proof -
  note sh = solved_shape [OF s]
  let ?xs = "concat g"
  let ?vs = "cell_vals g (length g) cols"
  have st: "seat_of ?vs i = \<lparr>dept = Str e, roll = ident e (count_list (take (Suc i) ?xs) (Some e))\<rparr>"
    if "i < length ?xs" "?xs ! i = Some e" for i e
    using solved_seat [OF s nm _ that(2)] that(1) sh(4) by simp
  have some: "\<exists>e. ?xs ! i = Some e" if "i < length ?xs" for i
    using sh(3) that by (metis nth_mem option.exhaust)
  have L: "?L = {ident d (count_list (take (Suc i) ?xs) (Some d)) | i. i < length ?xs \<and> ?xs ! i = Some d}"
  proof (intro set_eqI iffI)
    fix y assume "y \<in> ?L"
    then obtain i where i: "i < length ?xs" "y = roll (seat_of ?vs i)" "dept (seat_of ?vs i) = Str d"
      unfolding concat_result [OF sh(4)] by auto
    obtain e where e: "?xs ! i = Some e" using some [OF i(1)] by auto
    have "e = d" using i(3) st [OF i(1) e] by simp
    then show "y \<in> {ident d (count_list (take (Suc i) ?xs) (Some d)) | i. i < length ?xs \<and> ?xs ! i = Some d}"
      using i e st [OF i(1) e] by auto
  next
    fix y assume "y \<in> {ident d (count_list (take (Suc i) ?xs) (Some d)) | i. i < length ?xs \<and> ?xs ! i = Some d}"
    then obtain i where i: "i < length ?xs" "?xs ! i = Some d"
      "y = ident d (count_list (take (Suc i) ?xs) (Some d))" by auto
    have "Some (seat_of ?vs i) \<in> set (concat (partial_result (length g) cols ?vs (length g * cols)))"
      unfolding concat_result [OF sh(4)] using i(1) by simp
    then show "y \<in> ?L" using st [OF i(1) i(2)] i(3) by force
  qed
  have occ: "(\<exists>i<length ?xs. ?xs ! i = Some d \<and> count_list (take (Suc i) ?xs) (Some d) = k)
             = (1 \<le> k \<and> k \<le> count_list ?xs (Some d))" for k
    by (rule occurrence_numbers)
  show ?thesis
    unfolding L
  proof (intro set_eqI iffI)
    fix y assume "y \<in> {ident d (count_list (take (Suc i) ?xs) (Some d)) | i. i < length ?xs \<and> ?xs ! i = Some d}"
    then obtain i where i: "i < length ?xs" "?xs ! i = Some d"
      "y = ident d (count_list (take (Suc i) ?xs) (Some d))" by auto
    then have "1 \<le> count_list (take (Suc i) ?xs) (Some d) \<and>
               count_list (take (Suc i) ?xs) (Some d) \<le> count_list ?xs (Some d)"
      using occ [of "count_list (take (Suc i) ?xs) (Some d)"] by blast
    then show "y \<in> ?R" using i(3) by blast
  next
    fix y assume "y \<in> ?R"
    then obtain k where k: "y = ident d k" "1 \<le> k" "k \<le> count_list ?xs (Some d)" by auto
    then obtain i where "i < length ?xs" "?xs ! i = Some d" "count_list (take (Suc i) ?xs) (Some d) = k"
      using occ [of k] by blast
    then show "y \<in> {ident d (count_list (take (Suc i) ?xs) (Some d)) | i. i < length ?xs \<and> ?xs ! i = Some d}"
      using k(1) by blast
  qed
qed

lemma produced_solved:
  assumes "tryArrange rs rows cols m al rn = Inr (Some g)" and "0 < rows"
  shows "solved cols g"
proof -
  note sg = solved_grid [OF assms(1)]
  have ne: "g \<noteq> []" using sg(1) assms(2) by (auto simp: well_shaped_def)
  have "length row = cols \<and> None \<notin> set row" if "row \<in> set g" for row
  proof -
    have lr: "length row = cols" using that sg(1) by (simp add: well_shaped_def)
    from that obtain r where r: "r < length g" "g ! r = row" by (auto simp: in_set_conv_nth)
    have rr: "r < rows" using sg(1) r(1) by (simp add: well_shaped_def)
    have "None \<notin> set row"
    proof
      assume "None \<in> set row"
      then obtain c where c: "c < length row" "row ! c = None" by (auto simp: in_set_conv_nth)
      then have "g ! r ! c \<noteq> None" using sg(3) rr lr by simp
      then show False using r(2) c(2) by simp
    qed
    then show ?thesis using lr by simp
  qed
  then show ?thesis using ne by (simp add: solved_def list_all_iff)
qed

lemma row_major_index:
  assumes "well_shaped rows cols g" "r < rows" "c < cols"
  shows "r * cols + c < rows * cols" and "concat g ! (r * cols + c) = g ! r ! c"
proof -
  show lt: "r * cols + c < rows * cols"
  proof -
    have "r * cols + c < r * cols + cols" using assms(3) by simp
    also have "\<dots> = Suc r * cols" by simp
    also have "\<dots> \<le> rows * cols" using assms(2) by (intro mult_le_mono1) simp
    finally show ?thesis .
  qed
  show "concat g ! (r * cols + c) = g ! r ! c"
    unfolding concat_cell_at [OF assms(1)] using lt assms(3) by (simp add: cell_at_def)
qed

lemma partial_result_nth:
  "r < rows \<Longrightarrow> c < cols \<Longrightarrow> r * cols + c < k \<Longrightarrow>
   partial_result rows cols vs k ! r ! c = Some (seat_of vs (r * cols + c))"
  by (simp add: partial_result_def)

lemmas label_simps =
  assignRollsToGrid_def label_cell_def read_cell_def to_string_def padStart_def digits.simps
  digit_char_def replicate_numeral list_update_numeral
  get_prop_def set_prop_def incremented_def prop_string_def object_prototype_def native_text_def

lemma div_mod_row_major: "c < n \<Longrightarrow> (r * n + c) div n = r \<and> (r * n + c) mod n = (c::nat)"
  by simp

lemma null_cell_seat:
  assumes ne: "g \<noteq> []" and h: "r < length g" "c < length (hd g)" "c < length (g ! r)" "g ! r ! c = None"
  shows "\<exists>n. partial_result (length g) (length (hd g)) (cell_vals g (length g) (length (hd g)))
               (length g * length (hd g)) ! r ! c
             = Some \<lparr>dept = Null, roll = ''null-'' @ padStart 3 (CHR ''0'') (digits n)\<rparr>"
proof -
  let ?cols = "length (hd g)"
  let ?vs = "cell_vals g (length g) ?cols"
  have lt: "r * ?cols + c < length g * ?cols"
  proof -
    have "r * ?cols + c < r * ?cols + ?cols" using h(2) by simp
    also have "\<dots> = Suc r * ?cols" by simp
    also have "\<dots> \<le> length g * ?cols" using h(1) by (intro mult_le_mono1) simp
    finally show ?thesis .
  qed
  have dm: "(r * ?cols + c) div ?cols = r" "(r * ?cols + c) mod ?cols = c"
    using div_mod_row_major [OF h(2), of r] by blast+
  have v: "?vs ! (r * ?cols + c) = Null"
    using lt h by (simp add: cell_vals_nth read_cell_def dm)
  have "partial_result (length g) ?cols ?vs (length g * ?cols) ! r ! c
          = Some (seat_of ?vs (r * ?cols + c))"
    using partial_result_nth h(1) h(2) lt by simp
  moreover have own: "''null'' \<notin> set inherited_names"
    by (simp add: inherited_names_def object_prototype_def)
  moreover obtain m where "count_list (map to_string (take (Suc (r * ?cols + c)) ?vs)) ''null'' = Suc m"
    using count_list_take_Suc [of "r * ?cols + c" "map to_string ?vs" "''null''"] lt v
    by (simp add: take_map to_string_def)
  ultimately have "partial_result (length g) ?cols ?vs (length g * ?cols) ! r ! c
          = Some \<lparr>dept = Null, roll = ''null-'' @ padStart 3 (CHR ''0'') (digits (Suc m))\<rparr>"
    unfolding seat_of_def v using read_after_own_names [OF own, of m]
    by (simp add: to_string_def prop_string_def)
  then show ?thesis by blast
qed

text \<open>On a solved grid none of whose category names is inherited by \<^verbatim>\<open>counters\<close>, the
  loops number the cells of each category in row-major order: the seat of a cell holds
  its category and the identifier made of the name, a dash and the zero-padded number of
  cells of that category at or before it; the identifiers are pairwise distinct, and
  those of a category are exactly the ones numbered 1 up to the number of its cells.\<close>

lemma own_names_labels:
  assumes s: "solved cols g" and nm: "own_names g"
  shows "\<exists>s. assignRollsToGrid g = Inr s \<and> length s = length g \<and>
           list_all (\<lambda>row. length row = cols) s \<and>
           (\<forall>r c d. r < length g \<and> c < cols \<and> g ! r ! c = Some d \<longrightarrow>
              s ! r ! c = Some \<lparr>dept = Str d,
                 roll = d @ ''-'' @ padStart 3 (CHR ''0'')
                          (digits (count_list (take (r * cols + c + 1) (concat g)) (Some d)))\<rparr>) \<and>
           distinct (map (\<lambda>x. roll (the x)) (concat s)) \<and>
           (\<forall>d. {roll (the x) | x. x \<in> set (concat s) \<and> dept (the x) = Str d} =
                {d @ ''-'' @ padStart 3 (CHR ''0'') (digits k) | k.
                   1 \<le> k \<and> k \<le> count_list (concat g) (Some d)})"
proof -
  let ?s = "partial_result (length g) cols (cell_vals g (length g) cols) (length g * cols)"
  note sh = solved_shape [OF s]
  have res: "assignRollsToGrid g = Inr ?s" by (rule solved_result [OF s])
  have dims: "length ?s = length g" "list_all (\<lambda>row. length row = cols) ?s"
    using well_shaped_partial_result [of "length g" cols "cell_vals g (length g) cols" "length g * cols"]
    by (simp_all add: well_shaped_def list_all_iff)
  have cellp: "?s ! r ! c = Some \<lparr>dept = Str d,
                 roll = d @ ''-'' @ padStart 3 (CHR ''0'')
                          (digits (count_list (take (r * cols + c + 1) (concat g)) (Some d)))\<rparr>"
    if h: "r < length g \<and> c < cols \<and> g ! r ! c = Some d" for r c d
  proof -
    have i: "r * cols + c < length g * cols" "concat g ! (r * cols + c) = g ! r ! c"
      using row_major_index [OF sh(1)] h by simp_all
    have "?s ! r ! c = Some (seat_of (cell_vals g (length g) cols) (r * cols + c))"
      using partial_result_nth h i(1) by simp
    then show ?thesis
      using solved_seat [OF s nm i(1), of d] i(2) h by (simp add: ident_def)
  qed
  have dist: "distinct (map (\<lambda>x. roll (the x)) (concat ?s))"
    unfolding solved_rolls [OF s nm] by (rule solved_distinct [OF s])
  have cont: "{roll (the x) | x. x \<in> set (concat ?s) \<and> dept (the x) = Str d} =
                {d @ ''-'' @ padStart 3 (CHR ''0'') (digits k) | k.
                   1 \<le> k \<and> k \<le> count_list (concat g) (Some d)}" for d
    using solved_contiguous [OF s nm, of d] by (simp add: ident_def)
  show ?thesis
    using res dims cellp dist cont by blast
qed

lemma own_names_labels_example:
  "solved 2 [[Some ''A'', Some ''B''], [Some ''B'', Some ''A'']] \<and>
   own_names [[Some ''A'', Some ''B''], [Some ''B'', Some ''A'']] \<and>
   assignRollsToGrid [[Some ''A'', Some ''B''], [Some ''B'', Some ''A'']] =
     Inr [[Some \<lparr>dept = Str ''A'', roll = ''A-001''\<rparr>, Some \<lparr>dept = Str ''B'', roll = ''B-001''\<rparr>],
          [Some \<lparr>dept = Str ''B'', roll = ''B-002''\<rparr>, Some \<lparr>dept = Str ''A'', roll = ''A-002''\<rparr>]] \<and>
   distinct [''A-001'', ''B-001'', ''B-002'', ''A-002'']"
proof -
  have s: "solved 2 [[Some ''A'', Some ''B''], [Some ''B'', Some ''A'']]"
    by (simp add: solved_def)
  have n: "own_names [[Some ''A'', Some ''B''], [Some ''B'', Some ''A'']]"
    by (simp add: own_names_def inherited_names_def object_prototype_def)
  have e: "assignRollsToGrid [[Some ''A'', Some ''B''], [Some ''B'', Some ''A'']] =
     Inr [[Some \<lparr>dept = Str ''A'', roll = ''A-001''\<rparr>, Some \<lparr>dept = Str ''B'', roll = ''B-001''\<rparr>],
          [Some \<lparr>dept = Str ''B'', roll = ''B-002''\<rparr>, Some \<lparr>dept = Str ''A'', roll = ''A-002''\<rparr>]]"
    by (simp add: label_simps)
  show ?thesis
    using own_names_labels [OF s n] s n e by auto
qed

subsection \<open>Two students of one department on a 1 by 2 grid\<close>

lemma two_cse_counts:
  "readCounts (\<lambda>d. if d = ''CSE'' then 2 else 0)
     = [(''CSE'', 2), (''ECE'', 0), (''IT'', 0), (''MECH'', 0), (''CIVIL'', 0)]"
  by (simp add: readCounts_def departments_def)

lemma two_cse_run:
  "tryArrange_run (\<lambda>rn xs. (rev xs, rn)) 1 2
     [(''CSE'', 2), (''ECE'', 0), (''IT'', 0), (''MECH'', 0), (''CIVIL'', 0)] 30000 (\<lambda>n. 1 / 2)
   = Searched (Inr False)
       \<lparr>grid = [[None, None]],
        countsLeft = [(''CSE'', 2), (''ECE'', 0), (''IT'', 0), (''MECH'', 0), (''CIVIL'', 0)],
        attempts = 2, draws = \<lambda>n. 1 / 2\<rparr>"
  by (simp add: run_simps cong: run_congs)

lemma two_cse_retry:
  "retry (\<lambda>rn xs. (rev xs, rn)) 5 1 2 (readCounts (\<lambda>d. if d = ''CSE'' then 2 else 0)) (\<lambda>n. 1 / 2)
     = Inr None"
proof -
  have five: "(5::nat) = Suc (Suc (Suc (Suc (Suc 0))))" by simp
  show ?thesis
    unfolding five two_cse_counts by (simp add: two_cse_run [unfolded One_nat_def])
qed

section \<open>Claims\<close>

text \<open>
  C1. Whenever \<open>tryArrange\<close> returns a grid, every cell differs in category from each of
  its in-bounds orthogonal neighbours (up, down, left, right; no diagonals, no wraparound):
  both for the cells at distance one in the same row or column, and for the cells the
  source's \<open>neighbors\<close> lists. This holds for every \<open>rows\<close>, \<open>cols\<close>, \<open>countsMap\<close>,
  \<open>attemptLimit\<close>, random source and engine sort.
\<close>

theorem tryArrange_adjacency:
  assumes "tryArrange rs rows cols countsMap attemptLimit rn = Inr (Some g)"
    and "r < rows" and "c < cols"
  shows "(\<forall>r' c'. r' < rows \<and> c' < cols \<and> adjacent (r, c) (r', c') \<longrightarrow> g ! r ! c \<noteq> g ! r' ! c') \<and>
         (\<forall>p \<in> set (neighbors r c rows cols). g ! r ! c \<noteq> g ! fst p ! snd p)"
proof -
  have a: "\<forall>r' c'. r' < rows \<and> c' < cols \<and> adjacent (r, c) (r', c') \<longrightarrow> g ! r ! c \<noteq> g ! r' ! c'"
    using solved_adjacent [OF assms(1) assms(2) assms(3)] by blast
  have "g ! r ! c \<noteq> g ! fst p ! snd p" if "p \<in> set (neighbors r c rows cols)" for p
    using that a neighbors_iff [OF assms(2) assms(3), of p] by (cases p) auto
  then show ?thesis using a by blast
qed

theorem tryArrange_adjacency_witness:
  "tryArrange (\<lambda>rn xs. (rev xs, rn)) 1 2 [(''A'', 1), (''B'', 1)] 20000 (\<lambda>n. 1 / 2)
     = Inr (Some [[Some ''A'', Some ''B'']]) \<and>
   (0, 1) \<in> set (neighbors 0 0 1 2) \<and>
   [[Some ''A'', Some ''B'']] ! 0 ! 0 \<noteq> [[Some ''A'', Some ''B'']] ! 0 ! (1::nat)"
proof -
  have e: "tryArrange (\<lambda>rn xs. (rev xs, rn)) 1 2 [(''A'', 1), (''B'', 1)] 20000 (\<lambda>n. 1 / 2)
             = Inr (Some [[Some ''A'', Some ''B'']])"
    by (simp add: run_simps cong: run_congs)
  have n: "(0, 1) \<in> set (neighbors 0 0 1 2)" by (simp add: neighbors_def)
  have "[[Some ''A'', Some ''B'']] ! 0 ! 0 \<noteq> [[Some ''A'', Some ''B'']] ! fst (0, 1::nat) ! snd (0::nat, 1)"
    using tryArrange_adjacency [OF e, of 0 0] n by auto
  then show ?thesis using e n by simp
qed

text \<open>
  C2. Whenever \<open>tryArrange\<close> returns a grid for a counts object with distinct keys and
  non-negative counts, the grid has \<open>rows\<close> rows of \<open>cols\<close> cells, every cell holds a
  category, and for every category the number of cells holding it is its requested
  count; in particular a category whose count is 0 does not occur in the grid.
\<close>

theorem tryArrange_counts:
  assumes "permuting rs" and "distinct (map fst countsMap)"
    and "\<forall>p\<in>set countsMap. 0 \<le> snd p"
    and "tryArrange rs rows cols countsMap attemptLimit rn = Inr (Some g)"
  shows "length g = rows \<and> (\<forall>row\<in>set g. length row = cols \<and> None \<notin> set row) \<and>
         (\<forall>d. int (count_list (concat g) (Some d)) = count_of countsMap d) \<and>
         (\<forall>d. count_of countsMap d = 0 \<longrightarrow> Some d \<notin> set (concat g))"
proof -
  note sg = solved_grid [OF assms(4)]
  have cnt: "int (count_list (concat g) (Some d)) = count_of countsMap d" for d
    using solved_counts [OF assms(1) assms(2) assms(4), of d] count_of_nonneg [OF assms(3), of d]
    by simp
  have full: "None \<notin> set row" if "row \<in> set g" for row
  proof
    assume "None \<in> set row"
    then obtain c where c: "c < length row" "row ! c = None" by (auto simp: in_set_conv_nth)
    from that obtain r where r: "r < length g" "g ! r = row" by (auto simp: in_set_conv_nth)
    have lr: "length row = cols" using that sg(1) by (simp add: well_shaped_def)
    have "r < rows" using sg(1) r(1) by (simp add: well_shaped_def)
    then have "g ! r ! c \<noteq> None" using sg(3) c(1) lr by simp
    then show False using r(2) c(2) by simp
  qed
  have zero: "Some d \<notin> set (concat g)" if "count_of countsMap d = 0" for d
  proof -
    have "count_list (concat g) (Some d) = 0" using cnt [of d] that by simp
    then show ?thesis by (metis count_list_0_iff)
  qed
  have shape: "length g = rows" "\<forall>row\<in>set g. length row = cols"
    using sg(1) by (simp_all add: well_shaped_def)
  show ?thesis using shape cnt full zero by blast
qed

theorem tryArrange_counts_witness:
  "permuting (\<lambda>rn xs. (rev xs, rn)) \<and>
   distinct (map fst [(''A'', 2), (''B'', 2), (''C'', 0::int)]) \<and>
   list_all (\<lambda>p. 0 \<le> snd p) [(''A'', 2), (''B'', 2), (''C'', 0::int)] \<and>
   tryArrange (\<lambda>rn xs. (rev xs, rn)) 2 2 [(''A'', 2), (''B'', 2), (''C'', 0)] 20000 (\<lambda>n. 1 / 2)
     = Inr (Some [[Some ''A'', Some ''B''], [Some ''B'', Some ''A'']]) \<and>
   int (count_list (concat [[Some ''A'', Some ''B''], [Some ''B'', Some ''A'']]) (Some ''A''))
     = count_of [(''A'', 2), (''B'', 2), (''C'', 0)] ''A'' \<and>
   Some ''C'' \<notin> set (concat [[Some ''A'', Some ''B''], [Some ''B'', Some ''A'']])"
proof -
  have e: "tryArrange (\<lambda>rn xs. (rev xs, rn)) 2 2 [(''A'', 2), (''B'', 2), (''C'', 0)] 20000 (\<lambda>n. 1 / 2)
             = Inr (Some [[Some ''A'', Some ''B''], [Some ''B'', Some ''A'']])"
    by (simp add: run_simps cong: run_congs)
  have d: "distinct (map fst [(''A'', 2), (''B'', 2), (''C'', 0::int)])" by simp
  have n: "\<forall>p\<in>set [(''A'', 2), (''B'', 2), (''C'', 0::int)]. 0 \<le> snd p" by simp
  show ?thesis
    using tryArrange_counts [OF permuting_rev d n e] permuting_rev e
    by (simp add: count_of_def)
qed

text \<open>
  C3. For a counts object with distinct keys and non-negative counts whose sum is not
  \<open>rows * cols\<close>, \<open>tryArrange\<close> returns its failure value at the length check: the run is
  \<open>Rejected\<close>, which is the return before the grid, the attempt counter and the search
  exist, so no placement is attempted, no cell is assigned and the attempt counter is
  never incremented.
\<close>

theorem tryArrange_mismatch:
  assumes "distinct (map fst countsMap)" and "\<forall>p\<in>set countsMap. 0 \<le> snd p"
    and "sum_list (map snd countsMap) \<noteq> int (rows * cols)"
  shows "tryArrange_run rs rows cols countsMap attemptLimit rn = Rejected \<and>
         attempts_of (tryArrange_run rs rows cols countsMap attemptLimit rn) = 0 \<and>
         tryArrange rs rows cols countsMap attemptLimit rn = Inr None"
proof -
  have "int (length (build_pool countsMap)) = sum_list (map snd countsMap)"
    using length_build_pool [OF assms(1)] remaining_nonneg [OF assms(2)] by simp
  then have "length (build_pool countsMap) \<noteq> rows * cols" using assms(3) by auto
  then show ?thesis by (simp add: tryArrange_run_unfold tryArrange_def attempts_of_def)
qed

theorem tryArrange_mismatch_witness:
  "distinct (map fst [(''A'', 3), (''B'', 2::int)]) \<and>
   list_all (\<lambda>p. 0 \<le> snd p) [(''A'', 3), (''B'', 2::int)] \<and>
   sum_list (map snd [(''A'', 3), (''B'', 2::int)]) \<noteq> int (2 * 2) \<and>
   tryArrange_run (\<lambda>rn xs. (rev xs, rn)) 2 2 [(''A'', 3), (''B'', 2)] 20000 (\<lambda>n. 1 / 2) = Rejected \<and>
   tryArrange (\<lambda>rn xs. (rev xs, rn)) 2 2 [(''A'', 3), (''B'', 2)] 20000 (\<lambda>n. 1 / 2) = Inr None"
proof -
  have d: "distinct (map fst [(''A'', 3), (''B'', 2::int)])" by simp
  have n: "\<forall>p\<in>set [(''A'', 3), (''B'', 2::int)]. 0 \<le> snd p" by simp
  have s: "sum_list (map snd [(''A'', 3), (''B'', 2::int)]) \<noteq> int (2 * 2)" by simp
  show ?thesis
    using tryArrange_mismatch [OF d n s, of "\<lambda>rn xs. (rev xs, rn)" 20000 "\<lambda>n. 1 / 2"] d n s
    by simp
qed

text \<open>
  C4 as stated fails: a count mismatch, a search that finds nothing and a search cut off
  by its attempt budget all return the same value \<^verbatim>\<open>null\<close>.
\<close>

theorem tryArrange_failure_kind_counterexample:
  "tryArrange (\<lambda>rn xs. (rev xs, rn)) 2 2 [(''A'', 3), (''B'', 2)] 30000 (\<lambda>n. 1 / 2) = Inr None \<and>
   tryArrange (\<lambda>rn xs. (rev xs, rn)) 2 2 [(''A'', 3), (''B'', 1)] 30000 (\<lambda>n. 1 / 2) = Inr None \<and>
   tryArrange (\<lambda>rn xs. (rev xs, rn)) 1 1 [(''A'', 1)] 1 (\<lambda>n. 1 / 2) = Inr None"
proof -
  have a: "tryArrange (\<lambda>rn xs. (rev xs, rn)) 2 2 [(''A'', 3), (''B'', 2)] 30000 (\<lambda>n. 1 / 2) = Inr None"
    by (simp add: run_simps cong: run_congs)
  have b: "tryArrange (\<lambda>rn xs. (rev xs, rn)) 2 2 [(''A'', 3), (''B'', 1)] 30000 (\<lambda>n. 1 / 2) = Inr None"
    by (rule infeasible_2x2 [OF permuting_rev])
  have c: "tryArrange (\<lambda>rn xs. (rev xs, rn)) 1 1 [(''A'', 1)] 1 (\<lambda>n. 1 / 2) = Inr None"
    by (simp add: run_simps cong: run_congs)
  show ?thesis using a b c by simp
qed

text \<open>
  C4, amended. Every invocation of \<open>tryArrange\<close> returns either a complete grid
  (\<open>rows\<close> rows of \<open>cols\<close> assigned cells) or the one failure value \<^verbatim>\<open>null\<close>; there is no
  typed failure, and the return at the count check and a search that fails both give
  \<^verbatim>\<open>null\<close>. The two are told apart by the caller \<open>attemptAndRender\<close> alone: it compares
  the sum of the counts with \<open>rows * cols\<close> itself and shows the mismatch alert without
  calling \<open>tryArrange\<close>; otherwise it never shows that alert, and shows the
  not-possible alert when its five tries all return \<^verbatim>\<open>null\<close>.
\<close>

theorem tryArrange_single_failure_value:
  "(tryArrange rs rows cols countsMap attemptLimit rn = Inr None \<or>
    (\<exists>g. tryArrange rs rows cols countsMap attemptLimit rn = Inr (Some g) \<and> length g = rows \<and>
         list_all (\<lambda>row. length row = cols \<and> None \<notin> set row) g)) \<and>
   (tryArrange_run rs rows cols countsMap attemptLimit rn = Rejected \<longrightarrow>
      tryArrange rs rows cols countsMap attemptLimit rn = Inr None) \<and>
   (\<forall>st. tryArrange_run rs rows cols countsMap attemptLimit rn = Searched (Inr False) st \<longrightarrow>
      tryArrange rs rows cols countsMap attemptLimit rn = Inr None) \<and>
   (totalCount (readCounts field) \<noteq> int (rows * cols) \<longrightarrow>
      attemptAndRender rs rows cols field rn = MismatchAlert) \<and>
   (totalCount (readCounts field) = int (rows * cols) \<longrightarrow>
      attemptAndRender rs rows cols field rn \<noteq> MismatchAlert \<and>
      (retry rs 5 rows cols (readCounts field) rn = Inr None \<longrightarrow>
         attemptAndRender rs rows cols field rn = NotPossibleAlert))"
proof -
  have a: "tryArrange rs rows cols countsMap attemptLimit rn = Inr None \<or>
    (\<exists>g. tryArrange rs rows cols countsMap attemptLimit rn = Inr (Some g) \<and> length g = rows \<and>
         list_all (\<lambda>row. length row = cols \<and> None \<notin> set row) g)"
  proof (cases "tryArrange rs rows cols countsMap attemptLimit rn = Inr None")
    case True
    then show ?thesis by simp
  next
    case False
    then obtain g where g: "tryArrange rs rows cols countsMap attemptLimit rn = Inr (Some g)"
      using tryArrange_cases by blast
    have len: "length g = rows" using solved_grid(1) [OF g] by (simp add: well_shaped_def)
    have "list_all (\<lambda>row. length row = cols \<and> None \<notin> set row) g"
    proof (cases "0 < rows")
      case True
      then show ?thesis using produced_solved [OF g] by (simp add: solved_def)
    next
      case False
      then show ?thesis using len by simp
    qed
    then show ?thesis using g len by blast
  qed
  have b: "tryArrange_run rs rows cols countsMap attemptLimit rn = Rejected \<longrightarrow>
      tryArrange rs rows cols countsMap attemptLimit rn = Inr None"
    by (simp add: tryArrange_def)
  have c: "\<forall>st. tryArrange_run rs rows cols countsMap attemptLimit rn = Searched (Inr False) st \<longrightarrow>
      tryArrange rs rows cols countsMap attemptLimit rn = Inr None"
    by (simp add: tryArrange_def)
  have d: "totalCount (readCounts field) \<noteq> int (rows * cols) \<longrightarrow>
      attemptAndRender rs rows cols field rn = MismatchAlert"
    by (simp add: attemptAndRender_def Let_def)
  have e: "totalCount (readCounts field) = int (rows * cols) \<longrightarrow>
      attemptAndRender rs rows cols field rn \<noteq> MismatchAlert \<and>
      (retry rs 5 rows cols (readCounts field) rn = Inr None \<longrightarrow>
         attemptAndRender rs rows cols field rn = NotPossibleAlert)"
    by (auto simp: attemptAndRender_def Let_def split: sum.splits option.splits)
  show ?thesis using a b c d e by blast
qed

theorem tryArrange_single_failure_value_witness:
  "tryArrange_run (\<lambda>rn xs. (rev xs, rn)) 1 2 [(''CSE'', 3)] 30000 (\<lambda>n. 1 / 2) = Rejected \<and>
   tryArrange (\<lambda>rn xs. (rev xs, rn)) 1 2 [(''CSE'', 3)] 30000 (\<lambda>n. 1 / 2) = Inr None \<and>
   tryArrange_run (\<lambda>rn xs. (rev xs, rn)) 1 2
     [(''CSE'', 2), (''ECE'', 0), (''IT'', 0), (''MECH'', 0), (''CIVIL'', 0)] 30000 (\<lambda>n. 1 / 2)
     = Searched (Inr False)
         \<lparr>grid = [[None, None]],
          countsLeft = [(''CSE'', 2), (''ECE'', 0), (''IT'', 0), (''MECH'', 0), (''CIVIL'', 0)],
          attempts = 2, draws = \<lambda>n. 1 / 2\<rparr> \<and>
   tryArrange (\<lambda>rn xs. (rev xs, rn)) 1 2
     [(''CSE'', 2), (''ECE'', 0), (''IT'', 0), (''MECH'', 0), (''CIVIL'', 0)] 30000 (\<lambda>n. 1 / 2)
     = Inr None \<and>
   totalCount (readCounts (\<lambda>d. if d = ''CSE'' then 3 else 0)) \<noteq> int (1 * 2) \<and>
   attemptAndRender (\<lambda>rn xs. (rev xs, rn)) 1 2 (\<lambda>d. if d = ''CSE'' then 3 else 0) (\<lambda>n. 1 / 2)
     = MismatchAlert \<and>
   totalCount (readCounts (\<lambda>d. if d = ''CSE'' then 2 else 0)) = int (1 * 2) \<and>
   attemptAndRender (\<lambda>rn xs. (rev xs, rn)) 1 2 (\<lambda>d. if d = ''CSE'' then 2 else 0) (\<lambda>n. 1 / 2)
     = NotPossibleAlert"
proof -
  have r: "tryArrange_run (\<lambda>rn xs. (rev xs, rn)) 1 2 [(''CSE'', 3)] 30000 (\<lambda>n. 1 / 2) = Rejected"
    by (simp add: tryArrange_run_unfold build_pool_def object_keys_def count_of_def)
  have t3: "totalCount (readCounts (\<lambda>d. if d = ''CSE'' then 3 else 0)) \<noteq> int (1 * 2)"
    by (simp add: totalCount_def readCounts_def departments_def)
  have t2: "totalCount (readCounts (\<lambda>d. if d = ''CSE'' then 2 else 0)) = int (1 * 2)"
    by (simp add: totalCount_def two_cse_counts)
  have a: "tryArrange (\<lambda>rn xs. (rev xs, rn)) 1 2 [(''CSE'', 3)] 30000 (\<lambda>n. 1 / 2) = Inr None \<and>
           attemptAndRender (\<lambda>rn xs. (rev xs, rn)) 1 2 (\<lambda>d. if d = ''CSE'' then 3 else 0) (\<lambda>n. 1 / 2)
             = MismatchAlert"
    using tryArrange_single_failure_value [of "\<lambda>rn xs. (rev xs, rn)" 1 2 "[(''CSE'', 3)]" 30000
        "\<lambda>n. 1 / 2" "\<lambda>d. if d = ''CSE'' then 3 else 0"] r t3
    by blast
  have b: "tryArrange (\<lambda>rn xs. (rev xs, rn)) 1 2
             [(''CSE'', 2), (''ECE'', 0), (''IT'', 0), (''MECH'', 0), (''CIVIL'', 0)] 30000 (\<lambda>n. 1 / 2)
             = Inr None \<and>
           attemptAndRender (\<lambda>rn xs. (rev xs, rn)) 1 2 (\<lambda>d. if d = ''CSE'' then 2 else 0) (\<lambda>n. 1 / 2)
             = NotPossibleAlert"
    using tryArrange_single_failure_value [of "\<lambda>rn xs. (rev xs, rn)" 1 2
        "[(''CSE'', 2), (''ECE'', 0), (''IT'', 0), (''MECH'', 0), (''CIVIL'', 0)]" 30000
        "\<lambda>n. 1 / 2" "\<lambda>d. if d = ''CSE'' then 2 else 0"] two_cse_run t2 two_cse_retry
    by blast
  show ?thesis using r t3 t2 a b two_cse_run by blast
qed

text \<open>
  C5 as stated fails: the grid with a \<^verbatim>\<open>null\<close> cell is labelled, not refused.
\<close>

theorem assignRollsToGrid_invalid_counterexample:
  "assignRollsToGrid [[Some ''A'', None]] =
     Inr [[Some \<lparr>dept = Str ''A'', roll = ''A-001''\<rparr>, Some \<lparr>dept = Null, roll = ''null-001''\<rparr>]]"
  by (simp add: label_simps)

text \<open>
  C5, amended. \<open>assignRollsToGrid\<close> validates nothing and has no result of its own for a
  malformed grid. On the empty grid it throws a TypeError (reading \<^verbatim>\<open>grid[0].length\<close>).
  On every non-empty grid it returns a seat grid with as many rows as the grid and
  \<^verbatim>\<open>grid[0].length\<close> seats per row, and a \<^verbatim>\<open>null\<close> cell is labelled like a category
  named null: its seat has dept \<^verbatim>\<open>null\<close> and an identifier \<^verbatim>\<open>null-NNN\<close>.
\<close>

theorem assignRollsToGrid_no_validation:
  "assignRollsToGrid [] = Inl TypeError \<and>
   (g \<noteq> [] \<longrightarrow>
      (\<exists>s. assignRollsToGrid g = Inr s \<and> length s = length g \<and>
           list_all (\<lambda>row. length row = length (hd g)) s \<and>
           (\<forall>r c. r < length g \<and> c < length (hd g) \<and> c < length (g ! r) \<and> g ! r ! c = None \<longrightarrow>
              (\<exists>n. s ! r ! c =
                 Some \<lparr>dept = Null, roll = ''null-'' @ padStart 3 (CHR ''0'') (digits n)\<rparr>))))"
proof -
  have a: "assignRollsToGrid [] = Inl TypeError" by (simp add: assignRollsToGrid_def)
  have b: "\<exists>s. assignRollsToGrid g = Inr s \<and> length s = length g \<and>
           list_all (\<lambda>row. length row = length (hd g)) s \<and>
           (\<forall>r c. r < length g \<and> c < length (hd g) \<and> c < length (g ! r) \<and> g ! r ! c = None \<longrightarrow>
              (\<exists>n. s ! r ! c =
                 Some \<lparr>dept = Null, roll = ''null-'' @ padStart 3 (CHR ''0'') (digits n)\<rparr>))"
    if ne: "g \<noteq> []"
  proof -
    let ?s = "partial_result (length g) (length (hd g)) (cell_vals g (length g) (length (hd g)))
                (length g * length (hd g))"
    have "assignRollsToGrid g = Inr ?s" by (rule assignRollsToGrid_eq [OF ne])
    moreover have "length ?s = length g" "list_all (\<lambda>row. length row = length (hd g)) ?s"
      using well_shaped_partial_result [of "length g" "length (hd g)"
          "cell_vals g (length g) (length (hd g))" "length g * length (hd g)"]
      by (simp_all add: well_shaped_def list_all_iff)
    moreover have "\<forall>r c. r < length g \<and> c < length (hd g) \<and> c < length (g ! r) \<and> g ! r ! c = None \<longrightarrow>
              (\<exists>n. ?s ! r ! c =
                 Some \<lparr>dept = Null, roll = ''null-'' @ padStart 3 (CHR ''0'') (digits n)\<rparr>)"
      using null_cell_seat [OF ne] by blast
    ultimately show ?thesis by blast
  qed
  show ?thesis using a b by blast
qed

theorem assignRollsToGrid_no_validation_witness:
  "assignRollsToGrid [] = Inl TypeError \<and>
   assignRollsToGrid [[None]] = Inr [[Some \<lparr>dept = Null, roll = ''null-001''\<rparr>]] \<and>
   (\<exists>s. assignRollsToGrid [[None]] = Inr s \<and> length s = 1)"
proof -
  have e: "assignRollsToGrid [[None]] = Inr [[Some \<lparr>dept = Null, roll = ''null-001''\<rparr>]]"
    by (simp add: label_simps)
  show ?thesis
    using assignRollsToGrid_no_validation [of "[[None]]"] e by auto
qed

text \<open>
  C6 fails on the code for a category whose name \<^verbatim>\<open>counters\<close> inherits from
  \<^verbatim>\<open>Object.prototype\<close>. For the counts \<^verbatim>\<open>{constructor: 2, B: 1}\<close> on a 1 by 3 grid
  \<open>tryArrange\<close> returns the solved grid constructor, B, constructor, and
  \<open>assignRollsToGrid\<close> gives its two cells of the category \<^verbatim>\<open>constructor\<close> the text of
  the inherited function followed by 1 and by 11, where C6 says \<^verbatim>\<open>constructor-001\<close> and
  \<^verbatim>\<open>constructor-002\<close>. On the solved 1 by 3 grid \<^verbatim>\<open>__proto__\<close>, B, \<^verbatim>\<open>__proto__\<close> both cells of
  the category \<^verbatim>\<open>__proto__\<close> get the identifier \<^verbatim>\<open>__proto__-[object Object]\<close>: the
  identifiers are not pairwise distinct and carry no number. For every solved grid
  without such a name the loops number the cells as C6 says (lemma \<open>own_names_labels\<close>).
\<close>

theorem assignRollsToGrid_inherited_name:
  "tryArrange (\<lambda>rn xs. (rev xs, rn)) 1 3 [(''constructor'', 2), (''B'', 1)] 20000 (\<lambda>n. 1 / 2)
     = Inr (Some [[Some ''constructor'', Some ''B'', Some ''constructor'']]) \<and>
   solved 3 [[Some ''constructor'', Some ''B'', Some ''constructor'']] \<and>
   assignRollsToGrid [[Some ''constructor'', Some ''B'', Some ''constructor'']] =
     Inr [[Some \<lparr>dept = Str ''constructor'',
                 roll = ''constructor-function Object() { [native code] }1''\<rparr>,
           Some \<lparr>dept = Str ''B'', roll = ''B-001''\<rparr>,
           Some \<lparr>dept = Str ''constructor'',
                 roll = ''constructor-function Object() { [native code] }11''\<rparr>]] \<and>
   solved 3 [[Some ''__proto__'', Some ''B'', Some ''__proto__'']] \<and>
   assignRollsToGrid [[Some ''__proto__'', Some ''B'', Some ''__proto__'']] =
     Inr [[Some \<lparr>dept = Str ''__proto__'', roll = ''__proto__-[object Object]''\<rparr>,
           Some \<lparr>dept = Str ''B'', roll = ''B-001''\<rparr>,
           Some \<lparr>dept = Str ''__proto__'', roll = ''__proto__-[object Object]''\<rparr>]] \<and>
   \<not> distinct [''__proto__-[object Object]'', ''B-001'', ''__proto__-[object Object]'']"
proof -
  have t: "tryArrange (\<lambda>rn xs. (rev xs, rn)) 1 3 [(''constructor'', 2), (''B'', 1)] 20000 (\<lambda>n. 1 / 2)
     = Inr (Some [[Some ''constructor'', Some ''B'', Some ''constructor'']])"
    by (simp add: run_simps cong: run_congs)
  have s1: "solved 3 [[Some ''constructor'', Some ''B'', Some ''constructor'']]"
    by (simp add: solved_def)
  have e1: "assignRollsToGrid [[Some ''constructor'', Some ''B'', Some ''constructor'']] =
     Inr [[Some \<lparr>dept = Str ''constructor'',
                 roll = ''constructor-function Object() { [native code] }1''\<rparr>,
           Some \<lparr>dept = Str ''B'', roll = ''B-001''\<rparr>,
           Some \<lparr>dept = Str ''constructor'',
                 roll = ''constructor-function Object() { [native code] }11''\<rparr>]]"
    by (simp add: label_simps)
  have s2: "solved 3 [[Some ''__proto__'', Some ''B'', Some ''__proto__'']]"
    by (simp add: solved_def)
  have e2: "assignRollsToGrid [[Some ''__proto__'', Some ''B'', Some ''__proto__'']] =
     Inr [[Some \<lparr>dept = Str ''__proto__'', roll = ''__proto__-[object Object]''\<rparr>,
           Some \<lparr>dept = Str ''B'', roll = ''B-001''\<rparr>,
           Some \<lparr>dept = Str ''__proto__'', roll = ''__proto__-[object Object]''\<rparr>]]"
    by (simp add: label_simps)
  have d: "\<not> distinct [''__proto__-[object Object]'', ''B-001'', ''__proto__-[object Object]'']"
    by simp
  show ?thesis using t s1 e1 s2 e2 d by blast
qed

text \<open>
  C7. \<open>assignRollsToGrid\<close> is deterministic: it reads nothing but its argument, so in
  the embedding it is a function of the grid alone. Two invocations on a grid that
  \<open>tryArrange\<close> returned for at least one row, whatever counts, attempt limits, random
  sources and engine sorts produced the grid, both return, and return the same seat grid.
\<close>

theorem assignRollsToGrid_deterministic:
  assumes "tryArrange rs rows cols countsMap attemptLimit rn = Inr (Some g)"
    and "tryArrange rs' rows cols' countsMap' attemptLimit' rn' = Inr (Some g')"
    and "g' = g" and "0 < rows"
  shows "\<exists>s. assignRollsToGrid g = Inr s \<and> assignRollsToGrid g' = Inr s"
  using solved_result [OF produced_solved [OF assms(1) assms(4)]] assms(3) by simp

theorem assignRollsToGrid_deterministic_witness:
  "tryArrange (\<lambda>rn xs. (rev xs, rn)) 1 2 [(''A'', 1), (''B'', 1)] 20000 (\<lambda>n. 1 / 2)
     = Inr (Some [[Some ''A'', Some ''B'']]) \<and>
   tryArrange (\<lambda>rn xs. (rev xs, rn)) 1 2 [(''B'', 1), (''A'', 1)] 7 (\<lambda>n. 1 / 10)
     = Inr (Some [[Some ''A'', Some ''B'']]) \<and>
   (\<exists>s. assignRollsToGrid [[Some ''A'', Some ''B'']] = Inr s)"
proof -
  have a: "tryArrange (\<lambda>rn xs. (rev xs, rn)) 1 2 [(''A'', 1), (''B'', 1)] 20000 (\<lambda>n. 1 / 2)
     = Inr (Some [[Some ''A'', Some ''B'']])"
    by (simp add: run_simps cong: run_congs)
  have b: "tryArrange (\<lambda>rn xs. (rev xs, rn)) 1 2 [(''B'', 1), (''A'', 1)] 7 (\<lambda>n. 1 / 10)
     = Inr (Some [[Some ''A'', Some ''B'']])"
    by (simp add: run_simps cong: run_congs)
  show ?thesis
    using assignRollsToGrid_deterministic [OF a b refl] a b by auto
qed

text \<open>
  C8. \<open>tryArrange\<close> terminates for every \<open>rows\<close>, \<open>cols\<close>, \<open>countsMap\<close>, \<open>attemptLimit\<close>
  and random source, with an engine sort that permutes: \<open>dfs\<close> and its loop are total
  functions (their termination is proved with their definition), the call returns a value
  and throws nothing, and the attempt counter, incremented at every call of \<open>dfs\<close>, ends
  at most \<open>rows * cols\<close> times the number of keys above \<open>attemptLimit + 1\<close>. On the
  infeasible instance \<open>rows = 2\<close>, \<open>cols = 2\<close>, counts \<open>{A: 3, B: 1}\<close> the call returns
  the failure value.
\<close>

theorem tryArrange_terminates:
  assumes "permuting rs"
  shows "(\<exists>v. tryArrange rs rows cols countsMap attemptLimit rn = Inr v) \<and>
         attempts_of (tryArrange_run rs rows cols countsMap attemptLimit rn)
           \<le> attemptLimit + 1 + rows * cols * length countsMap \<and>
         tryArrange rs 2 2 [(''A'', 3), (''B'', 1)] attemptLimit rn = Inr None"
  using tryArrange_cases [of rs rows cols countsMap attemptLimit rn]
    run_attempts_bound [OF assms] infeasible_2x2 [OF assms]
  by auto

theorem tryArrange_terminates_witness:
  "permuting (\<lambda>rn xs. (rev xs, rn)) \<and>
   tryArrange (\<lambda>rn xs. (rev xs, rn)) 2 2 [(''A'', 3), (''B'', 1)] 20000 (\<lambda>n. 1 / 2) = Inr None \<and>
   attempts_of (tryArrange_run (\<lambda>rn xs. (rev xs, rn)) 2 2 [(''A'', 3), (''B'', 1)] 20000 (\<lambda>n. 1 / 2))
     \<le> 20000 + 1 + 2 * 2 * length [(''A'', 3), (''B'', 1::int)]"
  using tryArrange_terminates [OF permuting_rev, of 2 2 "[(''A'', 3), (''B'', 1)]" 20000 "\<lambda>n. 1 / 2"]
    permuting_rev
  by simp

text \<open>
  C9. For \<open>rows = 1\<close>, \<open>cols = 4\<close>, counts \<open>{A: 2, B: 2}\<close> and the default
  \<open>attemptLimit\<close>, \<open>tryArrange\<close> returns the grid A,B,A,B or the grid B,A,B,A, for every
  random source and every engine sort that permutes: the search never backtracks on this
  instance and uses five of its attempts.
\<close>

theorem tryArrange_row4:
  assumes "permuting rs"
  shows "tryArrange rs 1 4 [(''A'', 2), (''B'', 2)] default_attemptLimit rn
           = Inr (Some [[Some ''A'', Some ''B'', Some ''A'', Some ''B'']]) \<or>
         tryArrange rs 1 4 [(''A'', 2), (''B'', 2)] default_attemptLimit rn
           = Inr (Some [[Some ''B'', Some ''A'', Some ''B'', Some ''A'']])"
  unfolding default_attemptLimit_def using assms by (rule row4_solved)

theorem tryArrange_row4_witness:
  "permuting (\<lambda>rn xs. (rev xs, rn)) \<and>
   tryArrange (\<lambda>rn xs. (rev xs, rn)) 1 4 [(''A'', 2), (''B'', 2)] default_attemptLimit (\<lambda>n. 1 / 10)
     = Inr (Some [[Some ''B'', Some ''A'', Some ''B'', Some ''A'']])"
proof -
  have "tryArrange (\<lambda>rn xs. (rev xs, rn)) 1 4 [(''A'', 2), (''B'', 2)] default_attemptLimit (\<lambda>n. 1 / 10)
          \<noteq> Inr (Some [[Some ''A'', Some ''B'', Some ''A'', Some ''B'']])"
    by (simp add: default_attemptLimit_def run_simps cong: run_congs)
  then show ?thesis
    using tryArrange_row4 [OF permuting_rev, of "\<lambda>n. 1 / 10"] permuting_rev by simp
qed

text \<open>
  C10. The length check and the placement of \<open>tryArrange\<close> ignore the entries of
  \<open>countsMap\<close> that are not positive: the call is rejected exactly when the sum of the
  strictly positive counts differs from \<open>rows * cols\<close>; a returned grid holds every
  category with a positive count exactly that many times and no category whose count is
  zero or negative. On a 2 by 2 grid, \<open>{A: 4, B: -1}\<close>, whose sum is 3, passes the check
  and the search runs (the attempt counter is incremented).
\<close>

theorem tryArrange_ignores_nonpositive:
  assumes "permuting rs" and "distinct (map fst countsMap)"
  shows "((tryArrange_run rs rows cols countsMap attemptLimit rn = Rejected) =
            (sum_list (map snd (filter (\<lambda>p. 0 < snd p) countsMap)) \<noteq> int (rows * cols))) \<and>
         (tryArrange rs rows cols countsMap attemptLimit rn = Inr (Some g) \<longrightarrow>
            (\<forall>d. 0 < count_of countsMap d \<longrightarrow>
                   int (count_list (concat g) (Some d)) = count_of countsMap d) \<and>
            (\<forall>d. count_of countsMap d \<le> 0 \<longrightarrow> Some d \<notin> set (concat g))) \<and>
         (\<exists>ok st. tryArrange_run rs 2 2 [(''A'', 4), (''B'', - 1)] attemptLimit rn = Searched ok st \<and>
                   1 \<le> attempts st)"
proof -
  have len: "int (length (build_pool countsMap)) =
               sum_list (map snd (filter (\<lambda>p. 0 < snd p) countsMap))"
    using length_build_pool [OF assms(2)] remaining_positive_part [of countsMap] by simp
  have "(length (build_pool countsMap) \<noteq> rows * cols) =
          (sum_list (map snd (filter (\<lambda>p. 0 < snd p) countsMap)) \<noteq> int (rows * cols))"
    unfolding len [symmetric] by (simp only: of_nat_eq_iff)
  then have a: "(tryArrange_run rs rows cols countsMap attemptLimit rn = Rejected) =
             (sum_list (map snd (filter (\<lambda>p. 0 < snd p) countsMap)) \<noteq> int (rows * cols))"
    by (simp only: tryArrange_run_unfold) simp
  have b: "(\<forall>d. 0 < count_of countsMap d \<longrightarrow>
                   int (count_list (concat g) (Some d)) = count_of countsMap d) \<and>
           (\<forall>d. count_of countsMap d \<le> 0 \<longrightarrow> Some d \<notin> set (concat g))"
    if s: "tryArrange rs rows cols countsMap attemptLimit rn = Inr (Some g)"
  proof -
    have m: "int (count_list (concat g) (Some d)) = max 0 (count_of countsMap d)" for d
      by (rule solved_counts [OF assms(1) assms(2) s])
    have "Some d \<notin> set (concat g)" if "count_of countsMap d \<le> 0" for d
    proof -
      have "count_list (concat g) (Some d) = 0" using m [of d] that by (auto simp: max_def split: if_splits)
      then show ?thesis by (metis count_list_0_iff)
    qed
    moreover have "int (count_list (concat g) (Some d)) = count_of countsMap d"
      if "0 < count_of countsMap d" for d
      using m [of d] that by (auto simp: max_def split: if_splits)
    ultimately show ?thesis by blast
  qed
  have "length (build_pool [(''A'', 4), (''B'', - 1)]) = 2 * 2"
    by (simp add: build_pool_def object_keys_def count_of_def)
  then have c: "\<exists>ok st. tryArrange_run rs 2 2 [(''A'', 4), (''B'', - 1)] attemptLimit rn = Searched ok st \<and>
                   1 \<le> attempts st"
    by (rule run_attempts_pos [OF assms(1)])
  show ?thesis using a b c by blast
qed

theorem tryArrange_ignores_nonpositive_witness:
  "permuting (\<lambda>rn xs. (rev xs, rn)) \<and>
   distinct (map fst [(''A'', 1), (''B'', 1), (''C'', - 1::int)]) \<and>
   sum_list (map snd [(''A'', 1), (''B'', 1), (''C'', - 1::int)]) \<noteq> int (1 * 2) \<and>
   tryArrange_run (\<lambda>rn xs. (rev xs, rn)) 1 2 [(''A'', 1), (''B'', 1), (''C'', - 1)] 20000 (\<lambda>n. 1 / 2)
     \<noteq> Rejected \<and>
   tryArrange (\<lambda>rn xs. (rev xs, rn)) 1 2 [(''A'', 1), (''B'', 1), (''C'', - 1)] 20000 (\<lambda>n. 1 / 2)
     = Inr (Some [[Some ''A'', Some ''B'']]) \<and>
   Some ''C'' \<notin> set (concat [[Some ''A'', Some ''B'']])"
proof -
  have e: "tryArrange (\<lambda>rn xs. (rev xs, rn)) 1 2 [(''A'', 1), (''B'', 1), (''C'', - 1)] 20000 (\<lambda>n. 1 / 2)
             = Inr (Some [[Some ''A'', Some ''B'']])"
    by (simp add: run_simps cong: run_congs)
  have d: "distinct (map fst [(''A'', 1), (''B'', 1), (''C'', - 1::int)])" by simp
  show ?thesis
    using tryArrange_ignores_nonpositive [OF permuting_rev d, of 1 2 20000 "\<lambda>n. 1 / 2"
        "[[Some ''A'', Some ''B'']]"] permuting_rev e
    by (simp add: count_of_def)
qed

end
